theory Spec2Isabelle
  imports Complex_Main "HOL-Library.AList"
begin

section \<open>Data model\<close>

text \<open>
  A JavaScript \<open>Map\<close> iterates in insertion order and has unique keys; it is an
  association list whose keys are distinct (\<open>is_Map\<close>).  \<open>Map.set\<close> is
  \<open>AList.update\<close>: an existing key keeps its position, a new key goes to the end.
  A JavaScript \<open>Set\<close> is a duplicate-free list in insertion order.
\<close>

type_synonym ('k, 'v) js_map = "('k \<times> 'v) list"
type_synonym 'a js_set = "'a list"

definition is_Map :: "('k, 'v) js_map \<Rightarrow> bool" where
  "is_Map m \<longleftrightarrow> distinct (map fst m)"

definition keys :: "('k, 'v) js_map \<Rightarrow> 'k list" where
  "keys m = map fst m"

definition has :: "('k, 'v) js_map \<Rightarrow> 'k \<Rightarrow> bool" where
  "has m k \<longleftrightarrow> k \<in> set (keys m)"

definition set_add :: "'a \<Rightarrow> 'a js_set \<Rightarrow> 'a js_set" where
  "set_add x xs = (if x \<in> set xs then xs else xs @ [x])"

text \<open>\<open>workspace.ts\<close>: \<open>PackageJsonData\<close> and \<open>PackageInfo\<close>.  An absent
  \<open>scripts\<close>, \<open>dependencies\<close> or \<open>devDependencies\<close> object is the empty map.\<close>

record PackageJsonData =
  pj_name :: "string option"
  scripts :: "(string, string) js_map"
  dependencies :: "(string, string) js_map"
  devDependencies :: "(string, string) js_map"

record PackageInfo =
  name :: string
  path :: string
  packageJson :: PackageJsonData
  workspaceDeps :: "string list"

text \<open>\<open>graph.ts\<close>: \<open>DependencyGraph\<close>.\<close>

record DependencyGraph =
  nodes :: "(string, PackageInfo) js_map"
  edges :: "(string, string js_set) js_map"
  reverseEdges :: "(string, string js_set) js_map"

datatype error =
    TypeError
  | CycleDetected "string list"
  | LayeringInconsistency
  | BuildFailed string
  | IOError

section \<open>graph.ts: buildDependencyGraph\<close>

text \<open>
  One step of the inner loop: \<open>if (packages.has(dep)) { edges.get(name)!.add(dep);
  reverseEdges.get(dep)!.add(name) }\<close>.  The sets are mutated in place, so the entry
  keeps its position in the map.  Both lookups are on maps that were given every key of
  \<open>packages\<close> by the first loop, and \<open>name\<close> and \<open>dep\<close> are keys of
  \<open>packages\<close> where they are used, so neither lookup is ever undefined
  (lemma \<open>buildDependencyGraph_keys\<close> below).
\<close>

definition add_dep ::
  "(string, PackageInfo) js_map \<Rightarrow> string \<Rightarrow> string \<Rightarrow>
   (string, string js_set) js_map \<times> (string, string js_set) js_map \<Rightarrow>
   (string, string js_set) js_map \<times> (string, string js_set) js_map" where
  "add_dep packages nm dep = (\<lambda>(es, rs).
     if has packages dep
     then (AList.map_entry nm (set_add dep) es, AList.map_entry dep (set_add nm) rs)
     else (es, rs))"

definition buildDependencyGraph :: "(string, PackageInfo) js_map \<Rightarrow> DependencyGraph" where
  "buildDependencyGraph packages =
     (let empties = map (\<lambda>(nm, _). (nm, [])) packages;
          (es, rs) = fold (\<lambda>(nm, pkg). fold (add_dep packages nm) (workspaceDeps pkg))
                          packages (empties, empties)
      in \<lparr>nodes = packages, edges = es, reverseEdges = rs\<rparr>)"

section \<open>graph.ts: topologicalSort\<close>

text \<open>
  The degree counters are JavaScript numbers.  \<open>inDegree.get(dependent)! - 1\<close> on a
  name that has no counter is \<open>undefined - 1 = NaN\<close>, which is stored and never equals 0.
\<close>

datatype jsnum = Num int | NaN

fun dec :: "jsnum option \<Rightarrow> jsnum" where
  "dec (Some (Num d)) = Num (d - 1)"
| "dec _ = NaN"

text \<open>\<open>for (const [name] of graph.nodes) inDegree.set(name, graph.edges.get(name)!.size)\<close>;
  reading \<open>.size\<close> of a missing entry throws a TypeError.\<close>

fun init_inDegree ::
  "(string, string js_set) js_map \<Rightarrow> string list \<Rightarrow> (string, jsnum) js_map \<Rightarrow>
   error + (string, jsnum) js_map" where
  "init_inDegree es [] inDegree = Inr inDegree"
| "init_inDegree es (nm # nms) inDegree =
     (case map_of es nm of
        None \<Rightarrow> Inl TypeError
      | Some ds \<Rightarrow> init_inDegree es nms (AList.update nm (Num (int (length ds))) inDegree))"

text \<open>The inner loop over \<open>graph.reverseEdges.get(current) || []\<close>.\<close>

fun relax ::
  "string list \<Rightarrow> (string, jsnum) js_map \<times> string list \<Rightarrow> (string, jsnum) js_map \<times> string list" where
  "relax [] (inDegree, queue) = (inDegree, queue)"
| "relax (dpt # ds) (inDegree, queue) =
     (let newDegree = dec (map_of inDegree dpt);
          inDegree' = AList.update dpt newDegree inDegree
      in relax ds (inDegree', if newDegree = Num 0 then queue @ [dpt] else queue))"

definition dependents :: "DependencyGraph \<Rightarrow> string \<Rightarrow> string list" where
  "dependents g current = (case map_of (reverseEdges g) current of Some ds \<Rightarrow> ds | None \<Rightarrow> [])"

definition positive :: "(string, jsnum) js_map \<Rightarrow> nat" where
  "positive inDegree = length (filter (\<lambda>(_, d). \<exists>k. d = Num k \<and> 0 < k) inDegree)"

lemma positive_update:
  "positive (AList.update k (dec (map_of m k)) m) + (if dec (map_of m k) = Num 0 then 1 else 0)
     \<le> positive m"
proof (induction m)
  case Nil
  then show ?case by (simp add: positive_def)
next
  case (Cons p m)
  obtain a b where p: "p = (a, b)" by (cases p)
  show ?case
  proof (cases "a = k")
    case True
    then show ?thesis using p
      by (cases b) (auto simp: positive_def)
  next
    case False
    then show ?thesis using p Cons.IH
      by (auto simp: positive_def)
  qed
qed

lemma relax_measure:
  "relax ds (m, q) = (m', q') \<Longrightarrow> length q' + positive m' \<le> length q + positive m"
proof (induction ds arbitrary: m q)
  case Nil
  then show ?case by simp
next
  case (Cons d ds)
  let ?nd = "dec (map_of m d)"
  let ?m1 = "AList.update d ?nd m"
  let ?q1 = "if ?nd = Num 0 then q @ [d] else q"
  from Cons.prems have "relax ds (?m1, ?q1) = (m', q')"
    by (simp add: Let_def)
  from Cons.IH[OF this] have "length q' + positive m' \<le> length ?q1 + positive ?m1" .
  also have "\<dots> \<le> length q + positive m"
    using positive_update[of d m] by (simp split: if_splits)
  finally show ?case .
qed

text \<open>The \<open>while (queue.length > 0)\<close> loop; it returns \<open>result\<close>.\<close>

function kahn ::
  "DependencyGraph \<Rightarrow> (string, jsnum) js_map \<Rightarrow> string list \<Rightarrow> string list \<Rightarrow> string list" where
  "kahn g inDegree [] result = result"
| "kahn g inDegree (current # queue) result =
     (case relax (dependents g current) (inDegree, queue) of
        (inDegree', queue') \<Rightarrow> kahn g inDegree' queue' (result @ [current]))"
  by pat_completeness auto
termination
  by (relation "measure (\<lambda>(g, m, q, r). length q + positive m)")
     (auto dest: relax_measure[OF sym])

text \<open>The value of \<open>result\<close> when the \<open>while\<close> loop has ended.\<close>

definition kahn_result :: "DependencyGraph \<Rightarrow> error + string list" where
  "kahn_result g =
     (case init_inDegree (edges g) (keys (nodes g)) [] of
        Inl e \<Rightarrow> Inl e
      | Inr inDegree \<Rightarrow>
          Inr (kahn g inDegree (map fst (filter (\<lambda>(nm, degree). degree = Num 0) inDegree)) []))"

definition topologicalSort :: "DependencyGraph \<Rightarrow> error + string list" where
  "topologicalSort g =
     (case kahn_result g of
        Inl e \<Rightarrow> Inl e
      | Inr result \<Rightarrow>
          if length result \<noteq> length (keys (nodes g))
          then Inl (CycleDetected (filter (\<lambda>n. n \<notin> set result) (keys (nodes g))))
          else Inr result)"

section \<open>The graph invariant and dependency order\<close>

definition deps_of :: "DependencyGraph \<Rightarrow> string \<Rightarrow> string list" where
  "deps_of g pkg = (case map_of (edges g) pkg of Some ds \<Rightarrow> ds | None \<Rightarrow> [])"

definition dep_rel :: "DependencyGraph \<Rightarrow> (string \<times> string) set" where
  "dep_rel g = {(n, d). d \<in> set (deps_of g n)}"

definition wf_graph :: "DependencyGraph \<Rightarrow> bool" where
  "wf_graph g \<longleftrightarrow>
     is_Map (nodes g) \<and> is_Map (edges g) \<and> is_Map (reverseEdges g) \<and>
     set (keys (edges g)) = set (keys (nodes g)) \<and>
     set (keys (reverseEdges g)) = set (keys (nodes g)) \<and>
     (\<forall>n. distinct (deps_of g n) \<and> set (deps_of g n) \<subseteq> set (keys (nodes g))) \<and>
     (\<forall>n. distinct (dependents g n) \<and> set (dependents g n) \<subseteq> set (keys (nodes g))) \<and>
     (\<forall>n d. d \<in> set (deps_of g n) \<longleftrightarrow> n \<in> set (dependents g d))"

fun topo_ordered :: "DependencyGraph \<Rightarrow> string set \<Rightarrow> string list \<Rightarrow> bool" where
  "topo_ordered g earlier [] = True"
| "topo_ordered g earlier (p # ps) =
     (set (deps_of g p) \<subseteq> earlier \<and> topo_ordered g (insert p earlier) ps)"

lemma relax_closed:
  "distinct ds \<Longrightarrow> relax ds (m, q) = (m', q') \<Longrightarrow>
   (\<forall>n. map_of m' n = (if n \<in> set ds then Some (dec (map_of m n)) else map_of m n)) \<and>
   q' = q @ filter (\<lambda>d. dec (map_of m d) = Num 0) ds"
proof (induction ds arbitrary: m q)
  case Nil
  then show ?case by simp
next
  case (Cons d ds)
  let ?nd = "dec (map_of m d)"
  let ?m1 = "AList.update d ?nd m"
  let ?q1 = "if ?nd = Num 0 then q @ [d] else q"
  have m1: "map_of ?m1 = (map_of m)(d \<mapsto> ?nd)" by (rule update_conv')
  from Cons.prems have r: "relax ds (?m1, ?q1) = (m', q')" and dd: "distinct ds" "d \<notin> set ds"
    by (simp_all add: Let_def)
  from Cons.IH[OF dd(1) r]
  have ih: "\<forall>n. map_of m' n = (if n \<in> set ds then Some (dec (map_of ?m1 n)) else map_of ?m1 n)"
    and q': "q' = ?q1 @ filter (\<lambda>x. dec (map_of ?m1 x) = Num 0) ds" by blast+
  have same: "\<And>x. x \<in> set ds \<Longrightarrow> map_of ?m1 x = map_of m x"
    using dd(2) by (auto simp: m1)
  have "filter (\<lambda>x. dec (map_of ?m1 x) = Num 0) ds = filter (\<lambda>x. dec (map_of m x) = Num 0) ds"
    by (rule filter_cong) (simp_all add: same)
  with q' have "q' = q @ filter (\<lambda>x. dec (map_of m x) = Num 0) (d # ds)" by simp
  moreover have "\<forall>n. map_of m' n = (if n \<in> set (d # ds) then Some (dec (map_of m n)) else map_of m n)"
    using ih same dd(2) by (auto simp: m1)
  ultimately show ?case by blast
qed

lemma topo_ordered_append:
  "topo_ordered g E (xs @ ys) \<longleftrightarrow> topo_ordered g E xs \<and> topo_ordered g (E \<union> set xs) ys"
  by (induction xs arbitrary: E) auto

lemma topo_ordered_nth:
  "topo_ordered g E xs \<longleftrightarrow> (\<forall>i<length xs. set (deps_of g (xs ! i)) \<subseteq> E \<union> set (take i xs))"
proof (induction xs arbitrary: E)
  case Nil
  then show ?case by simp
next
  case (Cons x xs)
  show ?case
  proof
    assume a: "topo_ordered g E (x # xs)"
    show "\<forall>i<length (x # xs). set (deps_of g ((x # xs) ! i)) \<subseteq> E \<union> set (take i (x # xs))"
    proof (intro allI impI)
      fix i assume "i < length (x # xs)"
      then show "set (deps_of g ((x # xs) ! i)) \<subseteq> E \<union> set (take i (x # xs))"
        using a Cons.IH[of "insert x E"] by (cases i) auto
    qed
  next
    assume a: "\<forall>i<length (x # xs). set (deps_of g ((x # xs) ! i)) \<subseteq> E \<union> set (take i (x # xs))"
    from a[rule_format, of 0] have "set (deps_of g x) \<subseteq> E" by simp
    moreover have "\<forall>i<length xs. set (deps_of g (xs ! i)) \<subseteq> insert x E \<union> set (take i xs)"
    proof (intro allI impI)
      fix i assume "i < length xs"
      with a[rule_format, of "Suc i"] show "set (deps_of g (xs ! i)) \<subseteq> insert x E \<union> set (take i xs)"
        by auto
    qed
    ultimately show "topo_ordered g E (x # xs)" using Cons.IH[of "insert x E"] by simp
  qed
qed

definition kahn_inv ::
  "DependencyGraph \<Rightarrow> (string, jsnum) js_map \<Rightarrow> string list \<Rightarrow> string list \<Rightarrow> bool" where
  "kahn_inv g m q r \<longleftrightarrow>
     distinct (r @ q) \<and> set (r @ q) \<subseteq> set (keys (nodes g)) \<and>
     (\<forall>n\<in>set (keys (nodes g)).
        map_of m n = Some (Num (int (card (set (deps_of g n) - set r))))) \<and>
     (\<forall>n\<in>set (keys (nodes g)). n \<in> set (r @ q) \<longleftrightarrow> set (deps_of g n) \<subseteq> set r) \<and>
     topo_ordered g {} r"

lemma card_diff_one:
  assumes "finite A" "c \<in> A" "c \<notin> R"
  shows "int (card (A - insert c R)) = int (card (A - R)) - 1"
proof -
  have "A - insert c R = (A - R) - {c}" by auto
  moreover have "c \<in> A - R" using assms by simp
  moreover have "finite (A - R)" using assms by simp
  ultimately show ?thesis
    by (metis card_Diff_singleton card_gt_0_iff empty_iff int_ops(6) of_nat_1 One_nat_def Suc_leI not_less of_nat_less_iff)
qed

lemma kahn_inv_step:
  assumes wf: "wf_graph g" and inv: "kahn_inv g m (c # q) r"
    and rel: "relax (dependents g c) (m, q) = (m', q')"
  shows "kahn_inv g m' q' (r @ [c])"
proof -
  let ?N = "set (keys (nodes g))"
  let ?D = "dependents g c"
  let ?k = "\<lambda>n. card (set (deps_of g n) - set r)"
  have D: "distinct ?D" "set ?D \<subseteq> ?N" and tr: "\<And>n. n \<in> set ?D \<longleftrightarrow> c \<in> set (deps_of g n)"
    and dN: "\<And>n. set (deps_of g n) \<subseteq> ?N"
    using wf unfolding wf_graph_def by blast+
  have c: "c \<notin> set r" "c \<notin> set q" "c \<in> ?N" "distinct r" "distinct q" "set r \<inter> set q = {}"
    "set r \<subseteq> ?N" "set q \<subseteq> ?N"
    using inv unfolding kahn_inv_def by auto
  have mk: "\<And>n. n \<in> ?N \<Longrightarrow> map_of m n = Some (Num (int (?k n)))"
    using inv unfolding kahn_inv_def by blast
  have mem: "\<And>n. n \<in> ?N \<Longrightarrow> n \<in> set r \<union> insert c (set q) \<longleftrightarrow> set (deps_of g n) \<subseteq> set r"
    using inv unfolding kahn_inv_def by auto
  have ord: "topo_ordered g {} r" using inv unfolding kahn_inv_def by blast
  from relax_closed[OF D(1) rel]
  have m': "\<And>n. map_of m' n = (if n \<in> set ?D then Some (dec (map_of m n)) else map_of m n)"
    and q': "q' = q @ filter (\<lambda>d. dec (map_of m d) = Num 0) ?D" by blast+
  have filt: "filter (\<lambda>d. dec (map_of m d) = Num 0) ?D = filter (\<lambda>d. ?k d = 1) ?D"
  proof (rule filter_cong[OF refl])
    fix d assume "d \<in> set ?D"
    then have "d \<in> ?N" using D(2) by blast
    from mk[OF this] show "(dec (map_of m d) = Num 0) = (?k d = 1)" by auto
  qed
  let ?F = "filter (\<lambda>d. ?k d = 1) ?D"
  have q'F: "q' = q @ ?F" using q' filt by simp
  have one: "\<And>n. n \<in> set ?D \<Longrightarrow> ?k n = 1 \<longleftrightarrow> set (deps_of g n) - set r = {c}"
  proof -
    fix n assume "n \<in> set ?D"
    then have cin: "c \<in> set (deps_of g n) - set r" using tr c(1) by simp
    show "?k n = 1 \<longleftrightarrow> set (deps_of g n) - set r = {c}"
    proof
      assume "?k n = 1"
      then obtain x where "set (deps_of g n) - set r = {x}" by (auto simp: card_1_singleton_iff)
      with cin show "set (deps_of g n) - set r = {c}" by auto
    next
      assume "set (deps_of g n) - set r = {c}" then show "?k n = 1" by simp
    qed
  qed
  have Fnot: "\<And>n. n \<in> set ?F \<Longrightarrow> n \<notin> set r \<union> insert c (set q)"
  proof -
    fix n assume n: "n \<in> set ?F"
    then have nD: "n \<in> set ?D" and "?k n = 1" by auto
    with one have "set (deps_of g n) - set r = {c}" by blast
    then have "\<not> set (deps_of g n) \<subseteq> set r" by auto
    moreover have "n \<in> ?N" using nD D(2) by blast
    ultimately show "n \<notin> set r \<union> insert c (set q)" using mem by blast
  qed
  have 1: "distinct ((r @ [c]) @ q')"
    using c D(1) Fnot unfolding q'F by (auto simp: disjoint_iff)
  have 2: "set ((r @ [c]) @ q') \<subseteq> ?N"
    using c D(2) unfolding q'F by auto
  have 3: "\<forall>n\<in>?N. map_of m' n = Some (Num (int (card (set (deps_of g n) - set (r @ [c])))))"
  proof
    fix n assume n: "n \<in> ?N"
    show "map_of m' n = Some (Num (int (card (set (deps_of g n) - set (r @ [c])))))"
    proof (cases "n \<in> set ?D")
      case True
      then have "c \<in> set (deps_of g n)" using tr by simp
      from card_diff_one[OF _ this c(1)]
      have "int (card (set (deps_of g n) - insert c (set r))) = int (?k n) - 1" by simp
      then show ?thesis using True m'[of n] mk[OF n] by simp
    next
      case False
      then have "c \<notin> set (deps_of g n)" using tr by simp
      then have "set (deps_of g n) - set (r @ [c]) = set (deps_of g n) - set r" by auto
      then show ?thesis using False m'[of n] mk[OF n] by simp
    qed
  qed
  have 4: "\<forall>n\<in>?N. n \<in> set ((r @ [c]) @ q') \<longleftrightarrow> set (deps_of g n) \<subseteq> set (r @ [c])"
  proof
    fix n assume n: "n \<in> ?N"
    show "n \<in> set ((r @ [c]) @ q') \<longleftrightarrow> set (deps_of g n) \<subseteq> set (r @ [c])"
    proof
      assume "n \<in> set ((r @ [c]) @ q')"
      then consider "n \<in> set r \<union> insert c (set q)" | "n \<in> set ?F" unfolding q'F by auto
      then show "set (deps_of g n) \<subseteq> set (r @ [c])"
      proof cases
        case 1 then show ?thesis using mem[OF n] by auto
      next
        case 2
        then have "n \<in> set ?D" "?k n = 1" by auto
        with one have "set (deps_of g n) - set r = {c}" by blast
        then show ?thesis by auto
      qed
    next
      assume a: "set (deps_of g n) \<subseteq> set (r @ [c])"
      show "n \<in> set ((r @ [c]) @ q')"
      proof (cases "set (deps_of g n) \<subseteq> set r")
        case True then show ?thesis using mem[OF n] unfolding q'F by auto
      next
        case False
        with a have "c \<in> set (deps_of g n)" by auto
        then have nD: "n \<in> set ?D" using tr by simp
        have "set (deps_of g n) - set r = {c}" using a False c(1) by auto
        with one[OF nD] have "?k n = 1" by simp
        with nD show ?thesis unfolding q'F by simp
      qed
    qed
  qed
  have "set (deps_of g c) \<subseteq> set r" using mem[OF c(3)] by simp
  with ord have 5: "topo_ordered g {} (r @ [c])" by (simp add: topo_ordered_append)
  show ?thesis unfolding kahn_inv_def using 1 2 3 4 5 by blast
qed

lemma kahn_inv_final:
  "wf_graph g \<Longrightarrow> kahn_inv g m q r \<Longrightarrow> \<exists>m'. kahn_inv g m' [] (kahn g m q r)"
proof (induction g m q r rule: kahn.induct)
  case (1 g inDegree result)
  then show ?case by auto
next
  case (2 g inDegree current queue result)
  obtain m' q' where r: "relax (dependents g current) (inDegree, queue) = (m', q')"
    by (cases "relax (dependents g current) (inDegree, queue)")
  from kahn_inv_step[OF "2.prems"(1) "2.prems"(2) r]
  have "kahn_inv g m' q' (result @ [current])" .
  from "2.IH"[OF r[symmetric] "2.prems"(1) this] show ?case using r by simp
qed

lemma update_fresh: "k \<notin> fst ` set m \<Longrightarrow> AList.update k v m = m @ [(k, v)]"
  by (induction m) auto

lemma init_inDegree_ok:
  "distinct nms \<Longrightarrow> set nms \<inter> fst ` set m = {} \<Longrightarrow> \<forall>n\<in>set nms. map_of es n \<noteq> None \<Longrightarrow>
   init_inDegree es nms m = Inr (m @ map (\<lambda>n. (n, Num (int (length (the (map_of es n)))))) nms)"
proof (induction nms arbitrary: m)
  case Nil
  then show ?case by simp
next
  case (Cons a nms)
  from Cons.prems obtain ds where ds: "map_of es a = Some ds" by auto
  have fresh: "a \<notin> fst ` set m" using Cons.prems by auto
  let ?m1 = "m @ [(a, Num (int (length ds)))]"
  have "set nms \<inter> fst ` set ?m1 = {}" using Cons.prems by auto
  from Cons.IH[OF _ this] Cons.prems
  have "init_inDegree es nms ?m1 = Inr (?m1 @ map (\<lambda>n. (n, Num (int (length (the (map_of es n)))))) nms)"
    by simp
  then show ?case using ds fresh by (simp add: update_fresh)
qed

lemma wf_graph_deps_of:
  assumes "wf_graph g" "n \<in> set (keys (nodes g))"
  shows "map_of (edges g) n = Some (deps_of g n)"
proof -
  from assms have "n \<in> fst ` set (edges g)" unfolding wf_graph_def keys_def by auto
  then obtain ds where "map_of (edges g) n = Some ds"
    by (metis map_of_eq_None_iff not_Some_eq)
  then show ?thesis by (simp add: deps_of_def)
qed

lemma init_inDegree_wf:
  assumes wf: "wf_graph g"
  shows "init_inDegree (edges g) (keys (nodes g)) [] =
           Inr (map (\<lambda>n. (n, Num (int (length (deps_of g n))))) (keys (nodes g)))"
proof -
  have d: "distinct (keys (nodes g))" using wf unfolding wf_graph_def is_Map_def keys_def by simp
  have ne: "\<forall>n\<in>set (keys (nodes g)). map_of (edges g) n \<noteq> None"
    using wf_graph_deps_of[OF wf] by simp
  have "map (\<lambda>n. (n, Num (int (length (the (map_of (edges g) n)))))) (keys (nodes g))
      = map (\<lambda>n. (n, Num (int (length (deps_of g n))))) (keys (nodes g))"
    using wf_graph_deps_of[OF wf] by (intro map_cong) simp_all
  with init_inDegree_ok[OF d _ ne, of "[]"] show ?thesis by simp
qed

lemma initial_queue:
  "map fst (filter (\<lambda>(nm, degree). degree = Num 0) (map (\<lambda>n. (n, Num (int (length (f n))))) ks))
     = filter (\<lambda>n. f n = []) ks"
  by (induction ks) auto

lemma kahn_inv_init:
  assumes wf: "wf_graph g"
  shows "kahn_inv g (map (\<lambda>n. (n, Num (int (length (deps_of g n))))) (keys (nodes g)))
           (filter (\<lambda>n. deps_of g n = []) (keys (nodes g))) []"
proof -
  have d: "distinct (keys (nodes g))" using wf unfolding wf_graph_def is_Map_def keys_def by simp
  have dd: "\<And>n. distinct (deps_of g n)" using wf unfolding wf_graph_def by blast
  have "\<And>n. n \<in> set (keys (nodes g)) \<Longrightarrow>
      map_of (map (\<lambda>n. (n, Num (int (length (deps_of g n))))) (keys (nodes g))) n
        = Some (Num (int (card (set (deps_of g n)))))"
    using dd by (simp add: map_of_map_restrict distinct_card)
  then show ?thesis unfolding kahn_inv_def using d by simp
qed

text \<open>What the loop has computed when the queue runs empty.\<close>

definition kahn_post :: "DependencyGraph \<Rightarrow> string list \<Rightarrow> bool" where
  "kahn_post g r \<longleftrightarrow>
     distinct r \<and> set r \<subseteq> set (keys (nodes g)) \<and> topo_ordered g {} r \<and>
     (\<forall>n\<in>set (keys (nodes g)). n \<in> set r \<longleftrightarrow> set (deps_of g n) \<subseteq> set r)"

lemma kahn_result_post:
  assumes wf: "wf_graph g"
  shows "\<exists>r. kahn_result g = Inr r \<and> kahn_post g r"
proof -
  let ?m0 = "map (\<lambda>n. (n, Num (int (length (deps_of g n))))) (keys (nodes g))"
  let ?q0 = "filter (\<lambda>n. deps_of g n = []) (keys (nodes g))"
  let ?r = "kahn g ?m0 ?q0 []"
  from kahn_inv_final[OF wf kahn_inv_init[OF wf]]
  obtain m' where "kahn_inv g m' [] ?r" by blast
  then have "kahn_post g ?r" unfolding kahn_inv_def kahn_post_def by simp
  moreover have "kahn_result g = Inr ?r"
    unfolding kahn_result_def by (simp add: init_inDegree_wf[OF wf] initial_queue)
  ultimately show ?thesis by blast
qed

lemma dep_rel_nodes:
  assumes wf: "wf_graph g" and "(n, d) \<in> dep_rel g"
  shows "n \<in> set (keys (nodes g))" "d \<in> set (keys (nodes g))"
proof -
  from assms(2) have d: "d \<in> set (deps_of g n)" by (simp add: dep_rel_def)
  then show "d \<in> set (keys (nodes g))" using wf unfolding wf_graph_def by blast
  from d have "map_of (edges g) n \<noteq> None" by (cases "map_of (edges g) n") (auto simp: deps_of_def)
  then have "n \<in> set (keys (edges g))" unfolding keys_def by (simp add: map_of_eq_None_iff)
  then show "n \<in> set (keys (nodes g))" using wf unfolding wf_graph_def by simp
qed

lemma dep_rel_finite: "wf_graph g \<Longrightarrow> finite (dep_rel g)"
proof -
  assume wf: "wf_graph g"
  have "dep_rel g \<subseteq> set (keys (nodes g)) \<times> set (keys (nodes g))"
    using dep_rel_nodes[OF wf] by auto
  then show ?thesis by (rule finite_subset) simp
qed

lemma kahn_post_acyclic_all:
  assumes wf: "wf_graph g" and post: "kahn_post g r" and ac: "acyclic (dep_rel g)"
  shows "set r = set (keys (nodes g))"
proof -
  have w: "wf ((dep_rel g)\<inverse>)"
    using dep_rel_finite[OF wf] ac by (simp add: finite_acyclic_wf_converse)
  have "n \<in> set (keys (nodes g)) \<Longrightarrow> n \<in> set r" for n
    using w
  proof (induction n rule: wf_induct_rule)
    case (less n)
    have "set (deps_of g n) \<subseteq> set r"
    proof
      fix d assume d: "d \<in> set (deps_of g n)"
      then have nd: "(n, d) \<in> dep_rel g" by (simp add: dep_rel_def)
      then have "(d, n) \<in> (dep_rel g)\<inverse>" by simp
      from less.IH[OF this] dep_rel_nodes(2)[OF wf nd] show "d \<in> set r" by simp
    qed
    with post less.prems show ?case unfolding kahn_post_def by blast
  qed
  with post show ?thesis unfolding kahn_post_def by blast
qed

lemma topo_ordered_trancl:
  assumes ord: "topo_ordered g {} r" and i: "i < length r" and t: "(r ! i, d) \<in> (dep_rel g)\<^sup>+"
  shows "\<exists>j<i. d = r ! j"
  using t
proof (induction rule: trancl_induct)
  case (base y)
  then have "y \<in> set (deps_of g (r ! i))" by (simp add: dep_rel_def)
  with ord i have "y \<in> set (take i r)" by (auto simp: topo_ordered_nth)
  then show ?case using i by (auto simp: in_set_conv_nth)
next
  case (step y z)
  then obtain j where j: "j < i" "y = r ! j" by blast
  from step have "z \<in> set (deps_of g (r ! j))" using j by (simp add: dep_rel_def)
  moreover have "j < length r" using i j by simp
  ultimately have "z \<in> set (take j r)" using ord by (auto simp: topo_ordered_nth)
  then obtain k where "k < j" "z = r ! k" using i j by (auto simp: in_set_conv_nth)
  with j show ?case by (intro exI[of _ k]) simp
qed

lemma kahn_post_no_cycle:
  assumes post: "kahn_post g r" and x: "x \<in> set r" 
  shows "(x, x) \<notin> (dep_rel g)\<^sup>+"
proof
  assume cyc: "(x, x) \<in> (dep_rel g)\<^sup>+"
  from x obtain i where i: "i < length r" "r ! i = x" by (auto simp: in_set_conv_nth)
  from post have ord: "topo_ordered g {} r" and d: "distinct r" unfolding kahn_post_def by blast+
  from topo_ordered_trancl[OF ord i(1)] cyc i(2) obtain j where "j < i" "x = r ! j" by auto
  with i d show False by (auto simp: nth_eq_iff_index_eq)
qed

section \<open>buildDependencyGraph establishes the graph invariant\<close>

definition dep_pairs :: "(string, PackageInfo) js_map \<Rightarrow> (string \<times> string) list" where
  "dep_pairs packages = concat (map (\<lambda>(nm, pkg). map (Pair nm) (workspaceDeps pkg)) packages)"

definition build_inv ::
  "(string, PackageInfo) js_map \<Rightarrow> (string \<times> string) set \<Rightarrow>
   (string, string js_set) js_map \<Rightarrow> (string, string js_set) js_map \<Rightarrow> bool" where
  "build_inv P ps es rs \<longleftrightarrow>
     map fst es = map fst P \<and> map fst rs = map fst P \<and>
     (\<forall>n ds. map_of es n = Some ds \<longrightarrow> distinct ds \<and> set ds = {d. (n, d) \<in> ps \<and> has P d}) \<and>
     (\<forall>d ns. map_of rs d = Some ns \<longrightarrow> distinct ns \<and> set ns = {n. (n, d) \<in> ps \<and> has P d})"

lemma map_fst_map_entry: "map fst (AList.map_entry k f xs) = map fst xs"
  by (induction xs) auto

lemma set_add_props: "set (set_add x xs) = insert x (set xs)" "distinct xs \<Longrightarrow> distinct (set_add x xs)"
  by (auto simp: set_add_def)

lemma has_map_of: "has m k \<longleftrightarrow> map_of m k \<noteq> None"
  by (simp add: has_def keys_def map_of_eq_None_iff)

lemma build_inv_edges:
  assumes "build_inv P ps es rs" "map_of es n = Some ds"
  shows "distinct ds \<and> set ds = {d. (n, d) \<in> ps \<and> has P d}"
  by (rule assms(1)[unfolded build_inv_def, THEN conjunct2, THEN conjunct2, THEN conjunct1,
        rule_format, OF assms(2)])

lemma build_inv_reverse:
  assumes "build_inv P ps es rs" "map_of rs d = Some ns"
  shows "distinct ns \<and> set ns = {n. (n, d) \<in> ps \<and> has P d}"
  by (rule assms(1)[unfolded build_inv_def, THEN conjunct2, THEN conjunct2, THEN conjunct2,
        rule_format, OF assms(2)])

lemma build_inv_keys:
  assumes "build_inv P ps es rs"
  shows "map fst es = map fst P" "map fst rs = map fst P"
  by (rule assms[unfolded build_inv_def, THEN conjunct1],
      rule assms[unfolded build_inv_def, THEN conjunct2, THEN conjunct1])

lemma build_invI:
  assumes "map fst es = map fst P" "map fst rs = map fst P"
    and "\<And>n ds. map_of es n = Some ds \<Longrightarrow> distinct ds \<and> set ds = {d. (n, d) \<in> ps \<and> has P d}"
    and "\<And>d ns. map_of rs d = Some ns \<Longrightarrow> distinct ns \<and> set ns = {n. (n, d) \<in> ps \<and> has P d}"
  shows "build_inv P ps es rs"
  unfolding build_inv_def
  apply (intro conjI allI impI)
       apply (rule assms(1))
      apply (rule assms(2))
     apply (erule assms(3)[THEN conjunct1])
    apply (erule assms(3)[THEN conjunct2])
   apply (erule assms(4)[THEN conjunct1])
  apply (erule assms(4)[THEN conjunct2])
  done

lemma build_inv_step:
  assumes inv: "build_inv P ps es rs" and nm: "has P nm"
  shows "case add_dep P nm dep (es, rs) of (es', rs') \<Rightarrow> build_inv P (insert (nm, dep) ps) es' rs'"
proof (cases "has P dep")
  case False
  then have eq: "add_dep P nm dep (es, rs) = (es, rs)" by (simp add: add_dep_def)
  have s1: "{d. (n, d) \<in> insert (nm, dep) ps \<and> has P d} = {d. (n, d) \<in> ps \<and> has P d}" for n
    using False by auto
  have s2: "{n. (n, d) \<in> insert (nm, dep) ps \<and> has P d} = {n. (n, d) \<in> ps \<and> has P d}" for d
    using False by auto
  have "build_inv P (insert (nm, dep) ps) es rs"
  proof (rule build_invI)
    show "map fst es = map fst P" "map fst rs = map fst P"
      by (rule build_inv_keys[OF inv])+
  next
    fix n ds assume "map_of es n = Some ds"
    from build_inv_edges[OF inv this]
    show "distinct ds \<and> set ds = {d. (n, d) \<in> insert (nm, dep) ps \<and> has P d}"
      unfolding s1 .
  next
    fix d ns assume "map_of rs d = Some ns"
    from build_inv_reverse[OF inv this]
    show "distinct ns \<and> set ns = {n. (n, d) \<in> insert (nm, dep) ps \<and> has P d}"
      unfolding s2 .
  qed
  then show ?thesis unfolding eq by simp
next
  case True
  let ?es = "AList.map_entry nm (set_add dep) es"
  let ?rs = "AList.map_entry dep (set_add nm) rs"
  have eq: "add_dep P nm dep (es, rs) = (?es, ?rs)" using True by (simp add: add_dep_def)
  have "build_inv P (insert (nm, dep) ps) ?es ?rs"
  proof (rule build_invI)
    show "map fst ?es = map fst P" "map fst ?rs = map fst P"
      by (simp_all only: map_fst_map_entry build_inv_keys[OF inv])
  next
    fix n ds assume a: "map_of ?es n = Some ds"
    show "distinct ds \<and> set ds = {d. (n, d) \<in> insert (nm, dep) ps \<and> has P d}"
    proof (cases "n = nm")
      case True
      from a True obtain ds0 where ds0: "map_of es nm = Some ds0" "ds = set_add dep ds0"
        by (cases "map_of es nm") (simp_all add: map_of_map_entry)
      from build_inv_edges[OF inv ds0(1)]
      have d0: "distinct ds0" "set ds0 = {d. (nm, d) \<in> ps \<and> has P d}" by simp_all
      have "set ds = insert dep (set ds0)" unfolding ds0(2) by (rule set_add_props(1))
      also have "\<dots> = insert dep {d. (nm, d) \<in> ps \<and> has P d}" unfolding d0(2) ..
      also have "\<dots> = {d. (nm, d) \<in> insert (nm, dep) ps \<and> has P d}"
        using \<open>has P dep\<close> by auto
      finally have "set ds = {d. (n, d) \<in> insert (nm, dep) ps \<and> has P d}" unfolding True .
      moreover have "distinct ds" unfolding ds0(2) using d0(1) by (rule set_add_props(2))
      ultimately show ?thesis by (intro conjI)
    next
      case False
      with a have "map_of es n = Some ds" by (simp add: map_of_map_entry)
      note d0 = build_inv_edges[OF inv this]
      have e: "{d. (n, d) \<in> insert (nm, dep) ps \<and> has P d} = {d. (n, d) \<in> ps \<and> has P d}"
        using False by auto
      show ?thesis unfolding e by (rule d0)
    qed
  next
    fix d ns assume a: "map_of ?rs d = Some ns"
    show "distinct ns \<and> set ns = {n. (n, d) \<in> insert (nm, dep) ps \<and> has P d}"
    proof (cases "d = dep")
      case True
      from a True obtain ns0 where ns0: "map_of rs dep = Some ns0" "ns = set_add nm ns0"
        by (cases "map_of rs dep") (simp_all add: map_of_map_entry)
      from build_inv_reverse[OF inv ns0(1)]
      have d0: "distinct ns0" "set ns0 = {n. (n, dep) \<in> ps \<and> has P dep}" by simp_all
      have "set ns = insert nm (set ns0)" unfolding ns0(2) by (rule set_add_props(1))
      also have "\<dots> = insert nm {n. (n, dep) \<in> ps \<and> has P dep}" unfolding d0(2) ..
      also have "\<dots> = {n. (n, dep) \<in> insert (nm, dep) ps \<and> has P dep}"
        using \<open>has P dep\<close> by auto
      finally have "set ns = {n. (n, d) \<in> insert (nm, dep) ps \<and> has P d}" unfolding True .
      moreover have "distinct ns" unfolding ns0(2) using d0(1) by (rule set_add_props(2))
      ultimately show ?thesis by (intro conjI)
    next
      case False
      with a have "map_of rs d = Some ns" by (simp add: map_of_map_entry)
      note d0 = build_inv_reverse[OF inv this]
      have e: "{n. (n, d) \<in> insert (nm, dep) ps \<and> has P d} = {n. (n, d) \<in> ps \<and> has P d}"
        using False by auto
      show ?thesis unfolding e by (rule d0)
    qed
  qed
  then show ?thesis unfolding eq by simp
qed

lemma build_inv_inner:
  "build_inv P ps es rs \<Longrightarrow> has P nm \<Longrightarrow>
   case fold (add_dep P nm) ds (es, rs) of (es', rs') \<Rightarrow> build_inv P (ps \<union> Pair nm ` set ds) es' rs'"
proof (induction ds arbitrary: ps es rs)
  case Nil
  then show ?case by simp
next
  case (Cons d ds)
  obtain es1 rs1 where s1: "add_dep P nm d (es, rs) = (es1, rs1)" by (cases "add_dep P nm d (es, rs)")
  with build_inv_step[OF Cons.prems, of d] have "build_inv P (insert (nm, d) ps) es1 rs1" by simp
  from Cons.IH[OF this Cons.prems(2)] show ?case using s1 by simp
qed

lemma build_inv_outer:
  "build_inv P ps es rs \<Longrightarrow> \<forall>(nm, pkg)\<in>set Q. has P nm \<Longrightarrow>
   case fold (\<lambda>(nm, pkg). fold (add_dep P nm) (workspaceDeps pkg)) Q (es, rs) of
     (es', rs') \<Rightarrow> build_inv P (ps \<union> set (dep_pairs Q)) es' rs'"
proof (induction Q arbitrary: ps es rs)
  case Nil
  then show ?case by (simp add: dep_pairs_def)
next
  case (Cons a Q)
  obtain nm pkg where a: "a = (nm, pkg)" by (cases a)
  obtain es1 rs1 where s1: "fold (add_dep P nm) (workspaceDeps pkg) (es, rs) = (es1, rs1)"
    by (cases "fold (add_dep P nm) (workspaceDeps pkg) (es, rs)")
  have "has P nm" using Cons.prems(2) a by simp
  from build_inv_inner[OF Cons.prems(1) this, of "workspaceDeps pkg"] s1
  have "build_inv P (ps \<union> Pair nm ` set (workspaceDeps pkg)) es1 rs1" by simp
  from Cons.IH[OF this] Cons.prems(2)
  have "case fold (\<lambda>(nm, pkg). fold (add_dep P nm) (workspaceDeps pkg)) Q (es1, rs1) of
     (es', rs') \<Rightarrow> build_inv P (ps \<union> Pair nm ` set (workspaceDeps pkg) \<union> set (dep_pairs Q)) es' rs'"
    by simp
  moreover have "ps \<union> Pair nm ` set (workspaceDeps pkg) \<union> set (dep_pairs Q) = ps \<union> set (dep_pairs (a # Q))"
    using a by (auto simp: dep_pairs_def)
  ultimately show ?case using a s1 by simp
qed

lemma build_inv_empties:
  "build_inv P {} (map (\<lambda>(nm, _). (nm, [])) P) (map (\<lambda>(nm, _). (nm, [])) P)"
proof -
  let ?E = "map (\<lambda>(nm, _). (nm, [])) P"
  have k: "map fst ?E = map fst P" by (induction P) auto
  have nil: "map_of ?E n = Some ds \<Longrightarrow> ds = []" for n :: string and ds :: "string list"
    by (induction P) (auto split: if_splits)
  show ?thesis
  proof (rule build_invI)
    show "map fst ?E = map fst P" by (rule k)
    show "map fst ?E = map fst P" by (rule k)
  next
    fix n :: string and ds :: "string list" assume "map_of ?E n = Some ds"
    from nil[OF this] show "distinct ds \<and> set ds = {d. (n, d) \<in> {} \<and> has P d}" by simp
  next
    fix d :: string and ns :: "string list" assume "map_of ?E d = Some ns"
    from nil[OF this] show "distinct ns \<and> set ns = {n. (n, d) \<in> {} \<and> has P d}" by simp
  qed
qed

lemma buildDependencyGraph_inv:
  "nodes (buildDependencyGraph P) = P \<and>
   build_inv P (set (dep_pairs P)) (edges (buildDependencyGraph P)) (reverseEdges (buildDependencyGraph P))"
proof -
  let ?E = "map (\<lambda>(nm, _). (nm, [])) P"
  obtain es rs where s: "fold (\<lambda>(nm, pkg). fold (add_dep P nm) (workspaceDeps pkg)) P (?E, ?E) = (es, rs)"
    by (cases "fold (\<lambda>(nm, pkg). fold (add_dep P nm) (workspaceDeps pkg)) P (?E, ?E)")
  have "\<forall>(nm, pkg)\<in>set P. has P nm" by (auto simp: has_def keys_def intro: rev_image_eqI)
  from build_inv_outer[OF build_inv_empties this] s
  have "build_inv P (set (dep_pairs P)) es rs" by simp
  then show ?thesis using s by (simp add: buildDependencyGraph_def Let_def)
qed

lemma dep_pairs_iff:
  "(n, d) \<in> set (dep_pairs P) \<longleftrightarrow> (\<exists>pkg. (n, pkg) \<in> set P \<and> d \<in> set (workspaceDeps pkg))"
  by (auto simp: dep_pairs_def)

lemma buildDependencyGraph_keys:
  "nodes (buildDependencyGraph P) = P"
  "map fst (edges (buildDependencyGraph P)) = map fst P"
  "map fst (reverseEdges (buildDependencyGraph P)) = map fst P"
  using buildDependencyGraph_inv[of P] build_inv_keys by blast+

lemma has_iff: "has P n \<longleftrightarrow> (\<exists>pkg. (n, pkg) \<in> set P)"
  by (force simp: has_def keys_def)

lemma buildDependencyGraph_deps_of:
  "set (deps_of (buildDependencyGraph P) n) =
     {d. (\<exists>pkg. (n, pkg) \<in> set P \<and> d \<in> set (workspaceDeps pkg)) \<and> has P d}"
  "distinct (deps_of (buildDependencyGraph P) n)"
proof -
  let ?g = "buildDependencyGraph P"
  from buildDependencyGraph_inv[of P]
  have inv: "build_inv P (set (dep_pairs P)) (edges ?g) (reverseEdges ?g)" by simp
  show "set (deps_of ?g n) = {d. (\<exists>pkg. (n, pkg) \<in> set P \<and> d \<in> set (workspaceDeps pkg)) \<and> has P d}"
  proof (cases "map_of (edges ?g) n")
    case None
    then have "n \<notin> set (map fst (edges ?g))" by (simp add: map_of_eq_None_iff)
    then have "\<not> has P n" unfolding buildDependencyGraph_keys by (simp add: has_def keys_def)
    then have "\<And>pkg. (n, pkg) \<notin> set P" by (simp add: has_iff)
    then show ?thesis using None by (simp add: deps_of_def)
  next
    case (Some ds)
    from build_inv_edges[OF inv Some]
    have "set ds = {d. (n, d) \<in> set (dep_pairs P) \<and> has P d}" by simp
    then show ?thesis using Some by (simp add: deps_of_def dep_pairs_iff)
  qed
  show "distinct (deps_of ?g n)"
  proof (cases "map_of (edges ?g) n")
    case None then show ?thesis by (simp add: deps_of_def)
  next
    case (Some ds)
    from build_inv_edges[OF inv Some] show ?thesis using Some by (simp add: deps_of_def)
  qed
qed

lemma buildDependencyGraph_dependents:
  "set (dependents (buildDependencyGraph P) d) =
     {n. (\<exists>pkg. (n, pkg) \<in> set P \<and> d \<in> set (workspaceDeps pkg)) \<and> has P d}"
  "distinct (dependents (buildDependencyGraph P) d)"
proof -
  let ?g = "buildDependencyGraph P"
  from buildDependencyGraph_inv[of P]
  have inv: "build_inv P (set (dep_pairs P)) (edges ?g) (reverseEdges ?g)" by simp
  show "set (dependents ?g d) = {n. (\<exists>pkg. (n, pkg) \<in> set P \<and> d \<in> set (workspaceDeps pkg)) \<and> has P d}"
  proof (cases "map_of (reverseEdges ?g) d")
    case None
    then have "d \<notin> set (map fst (reverseEdges ?g))" by (simp add: map_of_eq_None_iff)
    then have "\<not> has P d" unfolding buildDependencyGraph_keys by (simp add: has_def keys_def)
    then show ?thesis using None by (simp add: dependents_def)
  next
    case (Some ns)
    from build_inv_reverse[OF inv Some]
    have "set ns = {n. (n, d) \<in> set (dep_pairs P) \<and> has P d}" by simp
    then show ?thesis using Some by (simp add: dependents_def dep_pairs_iff)
  qed
  show "distinct (dependents ?g d)"
  proof (cases "map_of (reverseEdges ?g) d")
    case None then show ?thesis by (simp add: dependents_def)
  next
    case (Some ns)
    from build_inv_reverse[OF inv Some] show ?thesis using Some by (simp add: dependents_def)
  qed
qed

lemma buildDependencyGraph_wf:
  assumes "is_Map P"
  shows "wf_graph (buildDependencyGraph P)"
proof -
  let ?g = "buildDependencyGraph P"
  note k = buildDependencyGraph_keys[of P]
  have "is_Map (nodes ?g)" "is_Map (edges ?g)" "is_Map (reverseEdges ?g)"
    using assms by (simp_all add: is_Map_def k)
  moreover have "set (keys (edges ?g)) = set (keys (nodes ?g))"
    "set (keys (reverseEdges ?g)) = set (keys (nodes ?g))"
    by (simp_all add: keys_def k)
  moreover have "\<forall>m. distinct (deps_of ?g m) \<and> set (deps_of ?g m) \<subseteq> set (keys (nodes ?g))"
    by (auto simp: buildDependencyGraph_deps_of has_def k)
  moreover have "\<forall>m. distinct (dependents ?g m) \<and> set (dependents ?g m) \<subseteq> set (keys (nodes ?g))"
    by (auto simp: buildDependencyGraph_dependents k keys_def intro: rev_image_eqI)
  moreover have "\<forall>m d. d \<in> set (deps_of ?g m) \<longleftrightarrow> m \<in> set (dependents ?g d)"
    by (simp add: buildDependencyGraph_deps_of(1) buildDependencyGraph_dependents(1))
  ultimately show ?thesis unfolding wf_graph_def by blast
qed

section \<open>Correctness of topologicalSort\<close>

definition createPackage :: "string \<Rightarrow> string list \<Rightarrow> PackageInfo" where
  "createPackage nm deps =
     \<lparr>name = nm, path = ''/packages/'' @ nm,
      packageJson = \<lparr>pj_name = Some nm, scripts = [(''build'', ''tsc'')],
                     dependencies = [], devDependencies = []\<rparr>,
      workspaceDeps = deps\<rparr>"

definition reaches_cycle :: "DependencyGraph \<Rightarrow> string \<Rightarrow> bool" where
  "reaches_cycle g n \<longleftrightarrow> (\<exists>x. (n, x) \<in> (dep_rel g)\<^sup>* \<and> (x, x) \<in> (dep_rel g)\<^sup>+)"

lemma kahn_post_closed:
  assumes post: "kahn_post g r" and n: "n \<in> set r" and t: "(n, x) \<in> (dep_rel g)\<^sup>*"
  shows "x \<in> set r"
proof -
  from n obtain i where i: "i < length r" "r ! i = n" by (auto simp: in_set_conv_nth)
  from post have ord: "topo_ordered g {} r" unfolding kahn_post_def by blast
  from t consider "x = n" | "(n, x) \<in> (dep_rel g)\<^sup>+" by (auto simp: rtrancl_eq_or_trancl)
  then show ?thesis
  proof cases
    case 1 then show ?thesis using n by simp
  next
    case 2
    with topo_ordered_trancl[OF ord i(1), of x] i(2) obtain j where "j < i" "x = r ! j" by auto
    then show ?thesis using i(1) by simp
  qed
qed

lemma kahn_post_remaining:
  assumes wf: "wf_graph g" and post: "kahn_post g r" and n: "n \<in> set (keys (nodes g))"
  shows "n \<notin> set r \<longleftrightarrow> reaches_cycle g n"
proof
  assume "reaches_cycle g n"
  then obtain x where x: "(n, x) \<in> (dep_rel g)\<^sup>*" "(x, x) \<in> (dep_rel g)\<^sup>+"
    unfolding reaches_cycle_def by blast
  show "n \<notin> set r"
  proof
    assume "n \<in> set r"
    from kahn_post_closed[OF post this x(1)] have "x \<in> set r" .
    from kahn_post_no_cycle[OF post this] x(2) show False by simp
  qed
next
  assume nr: "n \<notin> set r"
  let ?E = "dep_rel g"
  let ?S = "set (keys (nodes g)) - set r"
  let ?En = "{(a, b). (a, b) \<in> ?E \<and> (n, a) \<in> ?E\<^sup>* \<and> a \<in> ?S \<and> b \<in> ?S}"
  have succ: "\<exists>d. (y, d) \<in> ?E \<and> d \<in> ?S" if "y \<in> ?S" for y
  proof -
    from that post have "\<not> set (deps_of g y) \<subseteq> set r" unfolding kahn_post_def by blast
    then obtain d where d: "d \<in> set (deps_of g y)" "d \<notin> set r" by blast
    then have "(y, d) \<in> ?E" by (simp add: dep_rel_def)
    with dep_rel_nodes(2)[OF wf this] d(2) show ?thesis by blast
  qed
  show "reaches_cycle g n"
  proof (rule ccontr)
    assume nc: "\<not> reaches_cycle g n"
    have sub: "?En \<subseteq> ?E" by blast
    have "acyclic ?En"
    proof (rule acyclicI, intro allI notI)
      fix x assume c: "(x, x) \<in> ?En\<^sup>+"
      then have "(x, x) \<in> ?E\<^sup>+" using trancl_mono[OF _ sub] by blast
      moreover from c obtain y where "(x, y) \<in> ?En" by (meson tranclD)
      then have "(n, x) \<in> ?E\<^sup>*" by simp
      ultimately show False using nc unfolding reaches_cycle_def by blast
    qed
    moreover have "finite ?En" using finite_subset[OF sub dep_rel_finite[OF wf]] .
    ultimately have w: "wf (?En\<inverse>)" by (simp add: finite_acyclic_wf_converse)
    let ?Q = "{y \<in> ?S. (n, y) \<in> ?E\<^sup>*}"
    have "n \<in> ?Q" using n nr by simp
    from wfE_min[OF w this] obtain z where z: "z \<in> ?Q" "\<And>y. (y, z) \<in> ?En\<inverse> \<Longrightarrow> y \<notin> ?Q"
      by blast
    from z(1) have zS: "z \<in> ?S" and nz: "(n, z) \<in> ?E\<^sup>*" by simp_all
    from succ[OF zS] obtain d where d: "(z, d) \<in> ?E" "d \<in> ?S" by blast
    have "(z, d) \<in> ?En" using d zS nz by simp
    then have "d \<notin> ?Q" using z(2)[of d] by simp
    moreover have "(n, d) \<in> ?E\<^sup>*" using nz d(1) by (rule rtrancl_into_rtrancl)
    ultimately show False using d(2) by simp
  qed
qed

text \<open>
  C1.  On a graph that satisfies the DependencyGraph invariant: if the dependency relation
  is acyclic, topologicalSort returns a list of all the nodes, each once, in which every
  dependency of a node stands at a strictly smaller index than the node; if it has a cycle,
  topologicalSort raises the cycle error, whose payload is the nodes absent from the
  ordering the loop produced, and these are exactly the nodes from which a cycle can be
  reached.
\<close>

theorem topologicalSort_correct:
  assumes "wf_graph g"
  shows "(acyclic (dep_rel g) \<longrightarrow>
           (\<exists>sorted. topologicalSort g = Inr sorted \<and> distinct sorted \<and>
              set sorted = set (keys (nodes g)) \<and>
              (\<forall>i<length sorted. \<forall>d\<in>set (deps_of g (sorted ! i)). \<exists>j<i. sorted ! j = d))) \<and>
         (\<not> acyclic (dep_rel g) \<longrightarrow>
           (\<exists>result remaining. kahn_result g = Inr result \<and>
              topologicalSort g = Inl (CycleDetected remaining) \<and> remaining \<noteq> [] \<and>
              remaining = filter (\<lambda>n. n \<notin> set result) (keys (nodes g)) \<and>
              set remaining = {n \<in> set (keys (nodes g)). reaches_cycle g n}))"
proof -
  from kahn_result_post[OF assms] obtain r where r: "kahn_result g = Inr r" and post: "kahn_post g r"
    by blast
  have dk: "distinct (keys (nodes g))" using assms unfolding wf_graph_def is_Map_def keys_def by simp
  have dr: "distinct r" and sub: "set r \<subseteq> set (keys (nodes g))" and ord: "topo_ordered g {} r"
    using post unfolding kahn_post_def by blast+
  have len: "length r = length (keys (nodes g)) \<longleftrightarrow> set r = set (keys (nodes g))"
  proof
    assume "length r = length (keys (nodes g))"
    then have "card (set r) = card (set (keys (nodes g)))" using dr dk by (simp add: distinct_card)
    then show "set r = set (keys (nodes g))" using sub by (simp add: card_subset_eq)
  next
    assume "set r = set (keys (nodes g))"
    then show "length r = length (keys (nodes g))" using dr dk by (metis distinct_card)
  qed
  have A: "acyclic (dep_rel g) \<longrightarrow>
           (\<exists>sorted. topologicalSort g = Inr sorted \<and> distinct sorted \<and>
              set sorted = set (keys (nodes g)) \<and>
              (\<forall>i<length sorted. \<forall>d\<in>set (deps_of g (sorted ! i)). \<exists>j<i. sorted ! j = d))"
  proof
    assume ac: "acyclic (dep_rel g)"
    from kahn_post_acyclic_all[OF assms post ac] have all: "set r = set (keys (nodes g))" .
    then have "topologicalSort g = Inr r" using len r by (simp add: topologicalSort_def)
    moreover have "\<forall>i<length r. \<forall>d\<in>set (deps_of g (r ! i)). \<exists>j<i. r ! j = d"
    proof (intro allI impI ballI)
      fix i d assume i: "i < length r" and d: "d \<in> set (deps_of g (r ! i))"
      with ord have "d \<in> set (take i r)" by (auto simp: topo_ordered_nth)
      then show "\<exists>j<i. r ! j = d" using i by (auto simp: in_set_conv_nth)
    qed
    ultimately show "\<exists>sorted. topologicalSort g = Inr sorted \<and> distinct sorted \<and>
              set sorted = set (keys (nodes g)) \<and>
              (\<forall>i<length sorted. \<forall>d\<in>set (deps_of g (sorted ! i)). \<exists>j<i. sorted ! j = d)"
      using dr all by blast
  qed
  have B: "\<not> acyclic (dep_rel g) \<longrightarrow>
           (\<exists>result remaining. kahn_result g = Inr result \<and>
              topologicalSort g = Inl (CycleDetected remaining) \<and> remaining \<noteq> [] \<and>
              remaining = filter (\<lambda>n. n \<notin> set result) (keys (nodes g)) \<and>
              set remaining = {n \<in> set (keys (nodes g)). reaches_cycle g n})"
  proof
    assume "\<not> acyclic (dep_rel g)"
    then obtain x where x: "(x, x) \<in> (dep_rel g)\<^sup>+" by (auto simp: acyclic_def)
    then obtain y where "(x, y) \<in> dep_rel g" by (meson tranclD)
    from dep_rel_nodes(1)[OF assms this] have xN: "x \<in> set (keys (nodes g))" .
    have xr: "x \<notin> set r" using kahn_post_no_cycle[OF post] x by blast
    let ?rem = "filter (\<lambda>n. n \<notin> set r) (keys (nodes g))"
    have "set r \<noteq> set (keys (nodes g))" using xN xr by blast
    then have "topologicalSort g = Inl (CycleDetected ?rem)"
      using len r by (simp add: topologicalSort_def)
    moreover have "?rem \<noteq> []" using xN xr by (auto simp: filter_empty_conv)
    moreover have "set ?rem = {n \<in> set (keys (nodes g)). reaches_cycle g n}"
      using kahn_post_remaining[OF assms post] by auto
    ultimately show "\<exists>result remaining. kahn_result g = Inr result \<and>
              topologicalSort g = Inl (CycleDetected remaining) \<and> remaining \<noteq> [] \<and>
              remaining = filter (\<lambda>n. n \<notin> set result) (keys (nodes g)) \<and>
              set remaining = {n \<in> set (keys (nodes g)). reaches_cycle g n}"
      using r by blast
  qed
  from A B show ?thesis by (rule conjI)
qed

definition chain_pkgs :: "(string, PackageInfo) js_map" where
  "chain_pkgs = [(''pkg-a'', createPackage ''pkg-a'' []),
                 (''pkg-b'', createPackage ''pkg-b'' [''pkg-a''])]"

definition cycle_pkgs :: "(string, PackageInfo) js_map" where
  "cycle_pkgs = [(''pkg-a'', createPackage ''pkg-a'' [''pkg-b'']),
                 (''pkg-b'', createPackage ''pkg-b'' [''pkg-a''])]"


lemma chain_graph:
  "buildDependencyGraph chain_pkgs =
     \<lparr>nodes = chain_pkgs, edges = [(''pkg-a'', []), (''pkg-b'', [''pkg-a''])],
      reverseEdges = [(''pkg-a'', [''pkg-b'']), (''pkg-b'', [])]\<rparr>"
  by (simp add: buildDependencyGraph_def chain_pkgs_def add_dep_def has_def keys_def
        set_add_def createPackage_def)

lemma cycle_graph:
  "buildDependencyGraph cycle_pkgs =
     \<lparr>nodes = cycle_pkgs, edges = [(''pkg-a'', [''pkg-b'']), (''pkg-b'', [''pkg-a''])],
      reverseEdges = [(''pkg-a'', [''pkg-b'']), (''pkg-b'', [''pkg-a''])]\<rparr>"
  by (simp add: buildDependencyGraph_def cycle_pkgs_def add_dep_def has_def keys_def
        set_add_def createPackage_def)

lemma chain_dep_rel: "dep_rel (buildDependencyGraph chain_pkgs) = {(''pkg-b'', ''pkg-a'')}"
  unfolding chain_graph by (auto simp: dep_rel_def deps_of_def split: if_splits)

lemma cycle_dep_rel:
  "dep_rel (buildDependencyGraph cycle_pkgs) = {(''pkg-a'', ''pkg-b''), (''pkg-b'', ''pkg-a'')}"
  unfolding cycle_graph by (auto simp: dep_rel_def deps_of_def split: if_splits)

lemma chain_sorted: "topologicalSort (buildDependencyGraph chain_pkgs) = Inr [''pkg-a'', ''pkg-b'']"
  unfolding chain_graph
  by (simp add: topologicalSort_def kahn_result_def keys_def chain_pkgs_def dependents_def Let_def)

lemma cycle_sorted:
  "topologicalSort (buildDependencyGraph cycle_pkgs) = Inl (CycleDetected [''pkg-a'', ''pkg-b''])"
  unfolding cycle_graph
  by (simp add: topologicalSort_def kahn_result_def keys_def cycle_pkgs_def dependents_def Let_def)

theorem topologicalSort_correct_witness:
  "wf_graph (buildDependencyGraph chain_pkgs) \<and> acyclic (dep_rel (buildDependencyGraph chain_pkgs)) \<and>
   (\<exists>sorted. topologicalSort (buildDependencyGraph chain_pkgs) = Inr sorted \<and> distinct sorted \<and>
      set sorted = {''pkg-a'', ''pkg-b''} \<and>
      (\<forall>i<length sorted. \<forall>d\<in>set (deps_of (buildDependencyGraph chain_pkgs) (sorted ! i)).
         \<exists>j<i. sorted ! j = d)) \<and>
   wf_graph (buildDependencyGraph cycle_pkgs) \<and> \<not> acyclic (dep_rel (buildDependencyGraph cycle_pkgs)) \<and>
   (\<exists>remaining. topologicalSort (buildDependencyGraph cycle_pkgs) = Inl (CycleDetected remaining) \<and>
      remaining \<noteq> [] \<and>
      set remaining = {n \<in> {''pkg-a'', ''pkg-b''}. reaches_cycle (buildDependencyGraph cycle_pkgs) n})"
proof -
  have w1: "wf_graph (buildDependencyGraph chain_pkgs)"
    by (rule buildDependencyGraph_wf) (simp add: is_Map_def chain_pkgs_def)
  have w2: "wf_graph (buildDependencyGraph cycle_pkgs)"
    by (rule buildDependencyGraph_wf) (simp add: is_Map_def cycle_pkgs_def)
  have "acyclic ({} :: (string \<times> string) set)" by (simp add: acyclic_def)
  then have a1: "acyclic (dep_rel (buildDependencyGraph chain_pkgs))"
    unfolding chain_dep_rel by (simp add: acyclic_insert)
  have "(''pkg-a'', ''pkg-a'') \<in> (dep_rel (buildDependencyGraph cycle_pkgs))\<^sup>+"
    unfolding cycle_dep_rel by (rule trancl_trans[of _ "''pkg-b''"]) auto
  then have a2: "\<not> acyclic (dep_rel (buildDependencyGraph cycle_pkgs))"
    by (auto simp: acyclic_def)
  have k1: "set (keys (nodes (buildDependencyGraph chain_pkgs))) = {''pkg-a'', ''pkg-b''}"
    by (auto simp: buildDependencyGraph_keys keys_def chain_pkgs_def)
  have k2: "set (keys (nodes (buildDependencyGraph cycle_pkgs))) = {''pkg-a'', ''pkg-b''}"
    by (auto simp: buildDependencyGraph_keys keys_def cycle_pkgs_def)
  note c1 = topologicalSort_correct[OF w1, THEN conjunct1, THEN mp, OF a1, unfolded k1]
  from topologicalSort_correct[OF w2, THEN conjunct2, THEN mp, OF a2, unfolded k2]
  obtain result remaining where
    "topologicalSort (buildDependencyGraph cycle_pkgs) = Inl (CycleDetected remaining)"
    "remaining \<noteq> []"
    "set remaining = {n \<in> {''pkg-a'', ''pkg-b''}. reaches_cycle (buildDependencyGraph cycle_pkgs) n}"
    by blast
  then have c2: "\<exists>remaining. topologicalSort (buildDependencyGraph cycle_pkgs) = Inl (CycleDetected remaining) \<and>
      remaining \<noteq> [] \<and>
      set remaining = {n \<in> {''pkg-a'', ''pkg-b''}. reaches_cycle (buildDependencyGraph cycle_pkgs) n}"
    by blast
  show ?thesis by (intro conjI w1 a1 c1 w2 a2 c2)
qed


section \<open>Correctness of buildDependencyGraph\<close>

definition external_pkgs :: "(string, PackageInfo) js_map" where
  "external_pkgs = [(''pkg-a'', createPackage ''pkg-a'' [''external-pkg'']),
                    (''pkg-b'', createPackage ''pkg-b'' [''pkg-a'', ''external-pkg''])]"

lemma is_Map_lookup: "is_Map m \<Longrightarrow> (k, v) \<in> set m \<Longrightarrow> (k, v') \<in> set m \<Longrightarrow> v = v'"
  unfolding is_Map_def by (metis map_of_is_SomeI option.inject)

text \<open>
  C7.  For every package map, buildDependencyGraph keeps the packages as nodes and gives both
  adjacency maps exactly the node keys; a package has a forward edge to a name if and only
  if it declares that name and the name is a key of the input; the reverse map is the
  transpose of the forward map; every name in a value set of either map is a node key; and
  the empty input gives the empty graph.
\<close>

theorem buildDependencyGraph_correct:
  "(is_Map packages \<longrightarrow>
      (let g = buildDependencyGraph packages in
         nodes g = packages \<and> keys (edges g) = keys packages \<and>
         keys (reverseEdges g) = keys packages \<and>
         (\<forall>(nm, pkg)\<in>set packages. \<forall>dep.
            dep \<in> set (deps_of g nm) \<longleftrightarrow> dep \<in> set (workspaceDeps pkg) \<and> has packages dep) \<and>
         (\<forall>n d. d \<in> set (deps_of g n) \<longleftrightarrow> n \<in> set (dependents g d)) \<and>
         (\<forall>(n, ds)\<in>set (edges g). set ds \<subseteq> set (keys (nodes g))) \<and>
         (\<forall>(d, ns)\<in>set (reverseEdges g). set ns \<subseteq> set (keys (nodes g))) \<and>
         wf_graph g)) \<and>
   buildDependencyGraph [] = \<lparr>nodes = [], edges = [], reverseEdges = []\<rparr>"
proof (intro conjI impI)
  assume m: "is_Map packages"
  let ?g = "buildDependencyGraph packages"
  note k = buildDependencyGraph_keys[of packages]
  have wf: "wf_graph ?g" by (rule buildDependencyGraph_wf[OF m])
  have fwd: "\<forall>(nm, pkg)\<in>set packages. \<forall>dep.
            dep \<in> set (deps_of ?g nm) \<longleftrightarrow> dep \<in> set (workspaceDeps pkg) \<and> has packages dep"
  proof (intro ballI, clarify)
    fix nm pkg dep assume in_p: "(nm, pkg) \<in> set packages"
    have "(\<exists>pkg'. (nm, pkg') \<in> set packages \<and> dep \<in> set (workspaceDeps pkg'))
            \<longleftrightarrow> dep \<in> set (workspaceDeps pkg)"
      using in_p is_Map_lookup[OF m in_p] by blast
    then show "dep \<in> set (deps_of ?g nm) \<longleftrightarrow> dep \<in> set (workspaceDeps pkg) \<and> has packages dep"
      by (simp add: buildDependencyGraph_deps_of(1))
  qed
  have tr: "\<forall>n d. d \<in> set (deps_of ?g n) \<longleftrightarrow> n \<in> set (dependents ?g d)"
    using wf unfolding wf_graph_def by blast
  have ev: "\<forall>(n, ds)\<in>set (edges ?g). set ds \<subseteq> set (keys (nodes ?g))"
  proof (intro ballI, clarify)
    fix n ds x assume e: "(n, ds) \<in> set (edges ?g)" and x: "x \<in> set ds"
    have "distinct (map fst (edges ?g))" using m by (simp add: k is_Map_def)
    from map_of_is_SomeI[OF this e] have "deps_of ?g n = ds" by (simp add: deps_of_def)
    with x wf show "x \<in> set (keys (nodes ?g))" unfolding wf_graph_def by blast
  qed
  have rv: "\<forall>(d, ns)\<in>set (reverseEdges ?g). set ns \<subseteq> set (keys (nodes ?g))"
  proof (intro ballI, clarify)
    fix d ns x assume e: "(d, ns) \<in> set (reverseEdges ?g)" and x: "x \<in> set ns"
    have "distinct (map fst (reverseEdges ?g))" using m by (simp add: k is_Map_def)
    from map_of_is_SomeI[OF this e] have "dependents ?g d = ns" by (simp add: dependents_def)
    with x wf show "x \<in> set (keys (nodes ?g))" unfolding wf_graph_def by blast
  qed
  show "let g = buildDependencyGraph packages in
         nodes g = packages \<and> keys (edges g) = keys packages \<and>
         keys (reverseEdges g) = keys packages \<and>
         (\<forall>(nm, pkg)\<in>set packages. \<forall>dep.
            dep \<in> set (deps_of g nm) \<longleftrightarrow> dep \<in> set (workspaceDeps pkg) \<and> has packages dep) \<and>
         (\<forall>n d. d \<in> set (deps_of g n) \<longleftrightarrow> n \<in> set (dependents g d)) \<and>
         (\<forall>(n, ds)\<in>set (edges g). set ds \<subseteq> set (keys (nodes g))) \<and>
         (\<forall>(d, ns)\<in>set (reverseEdges g). set ns \<subseteq> set (keys (nodes g))) \<and>
         wf_graph g"
    unfolding Let_def keys_def[of "edges ?g"] keys_def[of "reverseEdges ?g"] keys_def[of packages]
    by (intro conjI k fwd tr ev rv wf)
next
  show "buildDependencyGraph [] = \<lparr>nodes = [], edges = [], reverseEdges = []\<rparr>"
    by (simp add: buildDependencyGraph_def)
qed

lemma external_graph:
  "buildDependencyGraph external_pkgs =
     \<lparr>nodes = external_pkgs, edges = [(''pkg-a'', []), (''pkg-b'', [''pkg-a''])],
      reverseEdges = [(''pkg-a'', [''pkg-b'']), (''pkg-b'', [])]\<rparr>"
  by (simp add: buildDependencyGraph_def external_pkgs_def add_dep_def has_def keys_def
        set_add_def createPackage_def)

theorem buildDependencyGraph_correct_witness:
  "is_Map external_pkgs \<and>
   (let g = buildDependencyGraph external_pkgs in
      nodes g = external_pkgs \<and> keys (edges g) = keys external_pkgs \<and>
      keys (reverseEdges g) = keys external_pkgs \<and>
      (\<forall>(nm, pkg)\<in>set external_pkgs. \<forall>dep.
         dep \<in> set (deps_of g nm) \<longleftrightarrow> dep \<in> set (workspaceDeps pkg) \<and> has external_pkgs dep) \<and>
      (\<forall>n d. d \<in> set (deps_of g n) \<longleftrightarrow> n \<in> set (dependents g d)) \<and>
      (\<forall>(n, ds)\<in>set (edges g). set ds \<subseteq> set (keys (nodes g))) \<and>
      (\<forall>(d, ns)\<in>set (reverseEdges g). set ns \<subseteq> set (keys (nodes g))) \<and>
      wf_graph g) \<and>
   deps_of (buildDependencyGraph external_pkgs) ''pkg-b'' = [''pkg-a''] \<and>
   dependents (buildDependencyGraph external_pkgs) ''pkg-a'' = [''pkg-b'']"
proof -
  have m: "is_Map external_pkgs" by (simp add: is_Map_def external_pkgs_def)
  note c = buildDependencyGraph_correct[of external_pkgs, THEN conjunct1, THEN mp, OF m]
  have d: "deps_of (buildDependencyGraph external_pkgs) ''pkg-b'' = [''pkg-a'']"
    "dependents (buildDependencyGraph external_pkgs) ''pkg-a'' = [''pkg-b'']"
    unfolding external_graph by (simp_all add: deps_of_def dependents_def)
  show ?thesis by (intro conjI m c d)
qed

section \<open>graph.ts: getBuildLayers\<close>

text \<open>
  One pass of the inner \<open>for\<close> loop over \<open>sortedPackages\<close>: a package is pushed onto
  the layer when it is not assigned and every entry of \<open>graph.edges.get(pkg) || new Set()\<close>
  is.  \<open>assigned\<close> does not change during the pass.
\<close>

definition next_layer :: "string list \<Rightarrow> DependencyGraph \<Rightarrow> string js_set \<Rightarrow> string list" where
  "next_layer sortedPackages g assigned =
     filter (\<lambda>pkg. pkg \<notin> set assigned \<and> (\<forall>dep\<in>set (deps_of g pkg). dep \<in> set assigned))
       sortedPackages"

lemma length_fold_set_add: "length a \<le> length (fold set_add xs a)"
proof (induction xs arbitrary: a)
  case Nil
  then show ?case by simp
next
  case (Cons x xs)
  have "length a \<le> length (set_add x a)" by (simp add: set_add_def)
  also have "\<dots> \<le> length (fold set_add xs (set_add x a))" by (rule Cons.IH)
  finally show ?case by simp
qed

lemma length_fold_set_add_less:
  assumes "layer \<noteq> []" "set layer \<inter> set a = {}"
  shows "length a < length (fold set_add layer a)"
proof -
  from assms obtain x xs where l: "layer = x # xs" and x: "x \<notin> set a"
    by (cases layer) auto
  have "length a < length (set_add x a)" using x by (simp add: set_add_def)
  also have "\<dots> \<le> length (fold set_add xs (set_add x a))" by (rule length_fold_set_add)
  finally show ?thesis using l by simp
qed

lemma next_layer_disjoint: "set (next_layer sortedPackages g assigned) \<inter> set assigned = {}"
  by (auto simp: next_layer_def)

text \<open>The \<open>while (assigned.size < sortedPackages.length)\<close> loop.\<close>

function layers_loop ::
  "string list \<Rightarrow> DependencyGraph \<Rightarrow> string list list \<Rightarrow> string js_set \<Rightarrow>
   error + string list list" where
  "layers_loop sortedPackages g layers assigned =
     (if length assigned < length sortedPackages then
        (let layer = next_layer sortedPackages g assigned in
         if layer = [] then Inl LayeringInconsistency
         else layers_loop sortedPackages g (layers @ [layer]) (fold set_add layer assigned))
      else Inr layers)"
  by pat_completeness auto
termination
proof (relation "measure (\<lambda>(sortedPackages, g, layers, assigned). length sortedPackages - length assigned)")
  show "wf (measure (\<lambda>(sortedPackages, g, layers, assigned). length sortedPackages - length assigned))"
    by simp
next
  fix sortedPackages :: "string list" and g :: DependencyGraph and layers :: "string list list"
    and assigned :: "string list" and layer :: "string list"
  assume lt: "length assigned < length sortedPackages"
    and l: "layer = next_layer sortedPackages g assigned" and ne: "layer \<noteq> []"
  have "length assigned < length (fold set_add layer assigned)"
    using length_fold_set_add_less[OF ne] next_layer_disjoint[of sortedPackages g assigned] l by simp
  then show "((sortedPackages, g, layers @ [layer], fold set_add layer assigned),
              (sortedPackages, g, layers, assigned))
        \<in> measure (\<lambda>(sortedPackages, g, layers, assigned). length sortedPackages - length assigned)"
    using lt by simp
qed

definition getBuildLayers :: "string list \<Rightarrow> DependencyGraph \<Rightarrow> error + string list list" where
  "getBuildLayers sortedPackages g = layers_loop sortedPackages g [] []"

text \<open>The index of the layer that holds a package.\<close>

fun layer_index :: "string list list \<Rightarrow> string \<Rightarrow> nat option" where
  "layer_index [] p = None"
| "layer_index (l # ls) p = (if p \<in> set l then Some 0 else map_option Suc (layer_index ls p))"


section \<open>Correctness of getBuildLayers\<close>

definition eligible :: "DependencyGraph \<Rightarrow> string set \<Rightarrow> string \<Rightarrow> bool" where
  "eligible g A p \<longleftrightarrow> p \<notin> A \<and> set (deps_of g p) \<subseteq> A"

lemma next_layer_eligible:
  "next_layer sortedPackages g assigned = filter (eligible g (set assigned)) sortedPackages"
  unfolding next_layer_def by (rule filter_cong) (auto simp: eligible_def)

definition layers_inv ::
  "string list \<Rightarrow> DependencyGraph \<Rightarrow> string list list \<Rightarrow> string list \<Rightarrow> bool" where
  "layers_inv sortedPackages g layers assigned \<longleftrightarrow>
     distinct assigned \<and> set assigned = set (concat layers) \<and>
     set assigned \<subseteq> set sortedPackages \<and> distinct (concat layers) \<and>
     (\<forall>j<length layers.
        layers ! j = filter (eligible g (set (concat (take j layers)))) sortedPackages \<and>
        layers ! j \<noteq> [])"

lemma set_fold_set_add: "set (fold set_add xs a) = set a \<union> set xs"
  by (induction xs arbitrary: a) (auto simp: set_add_def)

lemma distinct_fold_set_add: "distinct a \<Longrightarrow> distinct (fold set_add xs a)"
  by (induction xs arbitrary: a) (auto simp: set_add_def)

lemma layers_inv_step:
  assumes inv: "layers_inv srt g layers assigned" and d: "distinct srt"
    and ne: "next_layer srt g assigned \<noteq> []"
  shows "layers_inv srt g (layers @ [next_layer srt g assigned])
           (fold set_add (next_layer srt g assigned) assigned)"
proof -
  let ?l = "next_layer srt g assigned"
  have i1: "distinct assigned" and i2: "set assigned = set (concat layers)"
    and i3: "set assigned \<subseteq> set srt" and i4: "distinct (concat layers)"
    and i5: "\<And>j. j < length layers \<Longrightarrow>
        layers ! j = filter (eligible g (set (concat (take j layers)))) srt \<and> layers ! j \<noteq> []"
    using inv unfolding layers_inv_def by blast+
  have dl: "distinct ?l" using d by (simp add: next_layer_def)
  have sl: "set ?l \<subseteq> set srt" by (auto simp: next_layer_def)
  have dj: "set ?l \<inter> set assigned = {}" by (rule next_layer_disjoint)
  have 1: "distinct (fold set_add ?l assigned)" using i1 by (rule distinct_fold_set_add)
  have 2: "set (fold set_add ?l assigned) = set (concat (layers @ [?l]))"
    using i2 by (simp add: set_fold_set_add)
  have 3: "set (fold set_add ?l assigned) \<subseteq> set srt"
    using i3 sl by (simp add: set_fold_set_add)
  have 4: "distinct (concat (layers @ [?l]))"
    using i4 dl dj i2 by auto
  have 5: "\<forall>j<length (layers @ [?l]).
        (layers @ [?l]) ! j = filter (eligible g (set (concat (take j (layers @ [?l]))))) srt \<and>
        (layers @ [?l]) ! j \<noteq> []"
  proof (intro allI impI)
    fix j assume "j < length (layers @ [?l])"
    then consider "j < length layers" | "j = length layers" by fastforce
    then show "(layers @ [?l]) ! j = filter (eligible g (set (concat (take j (layers @ [?l]))))) srt \<and>
        (layers @ [?l]) ! j \<noteq> []"
    proof cases
      case 1
      then have "(layers @ [?l]) ! j = layers ! j" "take j (layers @ [?l]) = take j layers"
        by (simp_all add: nth_append)
      then show ?thesis by (simp only:) (rule i5[OF 1])
    next
      case 2
      then show ?thesis using ne i2 by (simp add: next_layer_eligible)
    qed
  qed
  show ?thesis unfolding layers_inv_def using 1 2 3 4 5 by blast
qed

lemma next_layer_progress:
  assumes d: "distinct srt" and ord: "topo_ordered g {} srt"
    and da: "distinct assigned" and sub: "set assigned \<subseteq> set srt"
    and lt: "length assigned < length srt"
  shows "next_layer srt g assigned \<noteq> []"
proof -
  have "card (set assigned) < card (set srt)" using d da lt by (simp add: distinct_card)
  then have "\<exists>x\<in>set srt. x \<notin> set assigned" using sub by (metis less_irrefl subsetI subset_antisym)
  from split_list_first_prop[OF this]
  obtain ys x zs where s: "srt = ys @ x # zs" and x: "x \<notin> set assigned"
    and ys: "\<forall>y\<in>set ys. \<not> y \<notin> set assigned" by blast
  from ord s have "set (deps_of g x) \<subseteq> set ys" by (simp add: topo_ordered_append)
  with ys have "\<forall>dep\<in>set (deps_of g x). dep \<in> set assigned" by blast
  with x s have "x \<in> set (next_layer srt g assigned)" by (simp add: next_layer_def)
  then show ?thesis by auto
qed

lemma layers_loop_inv:
  "distinct srt \<Longrightarrow> topo_ordered g {} srt \<Longrightarrow> layers_inv srt g layers assigned \<Longrightarrow>
    \<exists>ls as. layers_loop srt g layers assigned = Inr ls \<and> layers_inv srt g ls as \<and>
            set as = set srt"
proof (induction srt g layers assigned rule: layers_loop.induct)
  case (1 sortedPackages g layers assigned)
  note d = "1.prems"(1) and ord = "1.prems"(2) and inv = "1.prems"(3)
  have da: "distinct assigned" and sub: "set assigned \<subseteq> set sortedPackages"
    using inv unfolding layers_inv_def by blast+
  show ?case
  proof (cases "length assigned < length sortedPackages")
    case True
    let ?l = "next_layer sortedPackages g assigned"
    have ne: "?l \<noteq> []" using next_layer_progress[OF d ord da sub True] .
    from layers_inv_step[OF inv d ne]
    have "layers_inv sortedPackages g (layers @ [?l]) (fold set_add ?l assigned)" .
    from "1.IH"[OF True refl ne d ord this]
    obtain ls as where "layers_loop sortedPackages g (layers @ [?l]) (fold set_add ?l assigned) = Inr ls"
      "layers_inv sortedPackages g ls as" "set as = set sortedPackages" by blast
    moreover have "layers_loop sortedPackages g layers assigned =
        layers_loop sortedPackages g (layers @ [?l]) (fold set_add ?l assigned)"
      using True ne by (subst layers_loop.simps) (simp add: Let_def)
    ultimately show ?thesis by metis
  next
    case False
    then have "card (set sortedPackages) \<le> card (set assigned)"
      using da d by (simp add: distinct_card)
    then have "set assigned = set sortedPackages" using sub
      by (simp add: card_seteq)
    moreover have "layers_loop sortedPackages g layers assigned = Inr layers"
      using False by (subst layers_loop.simps) simp
    ultimately show ?thesis using inv by blast
  qed
qed

lemma layer_index_Some:
  "layer_index L p = Some i \<longleftrightarrow> i < length L \<and> p \<in> set (L ! i) \<and> (\<forall>k<i. p \<notin> set (L ! k))"
proof (induction L arbitrary: i)
  case Nil
  then show ?case by simp
next
  case (Cons l L)
  show ?case
  proof (cases "p \<in> set l")
    case True
    then show ?thesis by (cases i) auto
  next
    case False
    show ?thesis
    proof (cases i)
      case 0
      then show ?thesis using False by simp
    next
      case (Suc i')
      have "(\<forall>k<Suc i'. p \<notin> set ((l # L) ! k)) \<longleftrightarrow> (\<forall>k<i'. p \<notin> set (L ! k))"
        using False by (auto simp: less_Suc_eq_0_disj)
      then show ?thesis using False Suc Cons.IH[of i'] by auto
    qed
  qed
qed

lemma concat_distinct_unique:
  "distinct (concat L) \<Longrightarrow> i < length L \<Longrightarrow> j < length L \<Longrightarrow>
   p \<in> set (L ! i) \<Longrightarrow> p \<in> set (L ! j) \<Longrightarrow> i = j"
proof (induction L arbitrary: i j)
  case Nil
  then show ?case by simp
next
  case (Cons l L)
  have dj: "set l \<inter> set (concat L) = {}" and dL: "distinct (concat L)"
    using Cons.prems(1) by auto
  have notboth: "p \<in> set l \<Longrightarrow> k < length L \<Longrightarrow> p \<in> set (L ! k) \<Longrightarrow> False" for k
    using dj by (auto simp: disjoint_iff)
  show ?case
  proof (cases i)
    case 0
    then show ?thesis using Cons.prems notboth by (cases j) auto
  next
    case (Suc i')
    show ?thesis
    proof (cases j)
      case 0
      then show ?thesis using Cons.prems notboth Suc by auto
    next
      case (Suc j')
      with \<open>i = Suc i'\<close> Cons.prems Cons.IH[OF dL, of i' j'] show ?thesis by simp
    qed
  qed
qed

lemma layer_index_distinct:
  assumes "distinct (concat L)"
  shows "layer_index L p = Some i \<longleftrightarrow> i < length L \<and> p \<in> set (L ! i)"
proof
  assume "layer_index L p = Some i"
  then show "i < length L \<and> p \<in> set (L ! i)" by (simp add: layer_index_Some)
next
  assume a: "i < length L \<and> p \<in> set (L ! i)"
  have "\<forall>k<i. p \<notin> set (L ! k)"
  proof (intro allI impI notI)
    fix k assume k: "k < i" "p \<in> set (L ! k)"
    with a concat_distinct_unique[OF assms, of i k p] show False by simp
  qed
  with a show "layer_index L p = Some i" by (simp add: layer_index_Some)
qed

lemma set_concat_take:
  "set (concat (take j L)) = {p. \<exists>k<j. k < length L \<and> p \<in> set (L ! k)}"
proof (induction j)
  case 0
  then show ?case by simp
next
  case (Suc j)
  show ?case
  proof (cases "j < length L")
    case True
    then have "set (concat (take (Suc j) L)) = set (concat (take j L)) \<union> set (L ! j)"
      by (simp add: take_Suc_conv_app_nth)
    then show ?thesis using Suc True by (auto simp: less_Suc_eq)
  next
    case False
    then have "take (Suc j) L = take j L" by simp
    then show ?thesis using Suc False by (auto simp: less_Suc_eq)
  qed
qed

lemma layers_inv_deps:
  assumes inv: "layers_inv srt g L as" and j: "j < length L" and p: "p \<in> set (L ! j)"
  shows "p \<in> set srt" "set (deps_of g p) \<subseteq> set (concat (take j L))"
    "0 < j \<Longrightarrow> \<exists>d\<in>set (deps_of g p). d \<in> set (L ! (j - 1))"
proof -
  have dc: "distinct (concat L)"
    and lay: "\<And>k. k < length L \<Longrightarrow> L ! k = filter (eligible g (set (concat (take k L)))) srt"
    using inv unfolding layers_inv_def by blast+
  from p lay[OF j] have el: "eligible g (set (concat (take j L))) p" and ps: "p \<in> set srt"
    by auto
  show "p \<in> set srt" by (rule ps)
  show sub: "set (deps_of g p) \<subseteq> set (concat (take j L))" using el by (simp add: eligible_def)
  show "\<exists>d\<in>set (deps_of g p). d \<in> set (L ! (j - 1))" if "0 < j"
  proof -
    from that j have j1: "j - 1 < length L" and sj: "Suc (j - 1) = j" by simp_all
    have "p \<notin> set (L ! (j - 1))"
      using concat_distinct_unique[OF dc j j1 p] that by auto
    with lay[OF j1] ps have "\<not> eligible g (set (concat (take (j - 1) L))) p" by auto
    moreover have "p \<notin> set (concat (take (j - 1) L))"
    proof
      assume "p \<in> set (concat (take (j - 1) L))"
      then obtain k where k: "k < j - 1" "k < length L" "p \<in> set (L ! k)"
        unfolding set_concat_take by blast
      from concat_distinct_unique[OF dc j k(2) p k(3)] k(1) show False by simp
    qed
    ultimately obtain d where d: "d \<in> set (deps_of g p)" "d \<notin> set (concat (take (j - 1) L))"
      by (auto simp: eligible_def)
    have "set (concat (take j L)) = set (concat (take (j - 1) L)) \<union> set (L ! (j - 1))"
      using take_Suc_conv_app_nth[OF j1] sj by simp
    with sub d have "d \<in> set (L ! (j - 1))" by blast
    with d(1) show ?thesis by blast
  qed
qed

lemma layers_inv_index:
  assumes inv: "layers_inv srt g L as" and j: "j < length L" and p: "p \<in> set (L ! j)"
  shows "j = (if deps_of g p = [] then 0
              else 1 + Max {k. \<exists>d\<in>set (deps_of g p). layer_index L d = Some k})"
proof -
  have dc: "distinct (concat L)" using inv unfolding layers_inv_def by blast
  note li = layer_index_distinct[OF dc]
  note dd = layers_inv_deps[OF inv j p]
  show ?thesis
  proof (cases "deps_of g p = []")
    case True
    have "j = 0"
    proof (rule ccontr)
      assume "j \<noteq> 0"
      then have "0 < j" by simp
      from dd(3)[OF this] True show False by simp
    qed
    then show ?thesis using True by simp
  next
    case False
    let ?K = "{k. \<exists>d\<in>set (deps_of g p). layer_index L d = Some k}"
    have below: "k < j" if "k \<in> ?K" for k
    proof -
      from that obtain d where d: "d \<in> set (deps_of g p)" "layer_index L d = Some k" by blast
      from d(1) dd(2) have "d \<in> set (concat (take j L))" by blast
      then obtain k' where k': "k' < j" "k' < length L" "d \<in> set (L ! k')"
        unfolding set_concat_take by blast
      then have "layer_index L d = Some k'" by (simp add: li)
      with d(2) k'(1) show ?thesis by simp
    qed
    from False obtain d0 where "d0 \<in> set (deps_of g p)" by (cases "deps_of g p") auto
    with dd(2) have "d0 \<in> set (concat (take j L))" by (rule subsetD)
    then have pos: "0 < j" by (cases j) auto
    from dd(3)[OF pos] obtain d where d: "d \<in> set (deps_of g p)" "d \<in> set (L ! (j - 1))" by blast
    have "layer_index L d = Some (j - 1)" using d(2) j by (simp add: li)
    with d(1) have inK: "j - 1 \<in> ?K" by blast
    have fin: "finite ?K"
    proof (rule finite_subset)
      show "?K \<subseteq> {..<j}" using below by auto
    qed simp
    have "Max ?K = j - 1"
    proof (rule Max_eqI[OF fin _ inK])
      fix k assume "k \<in> ?K"
      from below[OF this] show "k \<le> j - 1" by simp
    qed
    then show ?thesis using False pos by simp
  qed
qed

lemma topologicalSort_Inr:
  assumes wf: "wf_graph g" and s: "topologicalSort g = Inr srt"
  shows "distinct srt" "set srt = set (keys (nodes g))" "topo_ordered g {} srt"
proof -
  from kahn_result_post[OF wf] obtain r where r: "kahn_result g = Inr r" and post: "kahn_post g r"
    by blast
  from s r have eq: "srt = r" and len: "length r = length (keys (nodes g))"
    by (auto simp: topologicalSort_def split: if_splits)
  show "distinct srt" "topo_ordered g {} srt" using post eq unfolding kahn_post_def by blast+
  have dk: "distinct (keys (nodes g))" using wf unfolding wf_graph_def is_Map_def keys_def by simp
  have "set r \<subseteq> set (keys (nodes g))" "distinct r" using post unfolding kahn_post_def by blast+
  moreover have "card (set r) = card (set (keys (nodes g)))"
    using len dk \<open>distinct r\<close> by (simp add: distinct_card)
  ultimately show "set srt = set (keys (nodes g))" using eq by (simp add: card_subset_eq)
qed

lemma layers_invD:
  assumes "layers_inv srt g L as"
  shows "distinct as" "set as = set (concat L)" "set as \<subseteq> set srt" "distinct (concat L)"
    "\<And>j. j < length L \<Longrightarrow>
       L ! j = filter (eligible g (set (concat (take j L)))) srt \<and> L ! j \<noteq> []"
  using assms unfolding layers_inv_def by blast+

lemma layers_inv_empty: "layers_inv srt g [] []"
  by (simp add: layers_inv_def)

lemma getBuildLayers_inv:
  assumes "distinct srt" "topo_ordered g {} srt"
  shows "\<exists>ls as. getBuildLayers srt g = Inr ls \<and> layers_inv srt g ls as \<and> set as = set srt"
  unfolding getBuildLayers_def by (rule layers_loop_inv[OF assms layers_inv_empty])

lemma getBuildLayers_sorted:
  assumes "wf_graph g" and "topologicalSort g = Inr srt"
  shows "\<exists>layers. getBuildLayers srt g = Inr layers \<and>
     (\<forall>p\<in>set (keys (nodes g)). \<exists>!i. i < length layers \<and> p \<in> set (layers ! i)) \<and>
     (\<forall>i<length layers. set (layers ! i) \<subseteq> set (keys (nodes g))) \<and>
     (\<forall>p\<in>set (keys (nodes g)).
        layer_index layers p =
          Some (if deps_of g p = [] then 0
                else 1 + Max {k. \<exists>d\<in>set (deps_of g p). layer_index layers d = Some k})) \<and>
     (\<forall>p\<in>set (keys (nodes g)). layer_index layers p = Some 0 \<longleftrightarrow> deps_of g p = []) \<and>
     (\<forall>i<length layers. \<forall>p\<in>set (layers ! i). \<forall>d\<in>set (deps_of g p).
        \<exists>j<i. d \<in> set (layers ! j))"
proof -
  note ts = topologicalSort_Inr[OF assms]
  from getBuildLayers_inv[OF ts(1) ts(3)]
  obtain L as where L: "getBuildLayers srt g = Inr L" and inv: "layers_inv srt g L as"
    and all: "set as = set srt" by blast
  have dc: "distinct (concat L)" by (rule layers_invD(4)[OF inv])
  have cov: "set (concat L) = set (keys (nodes g))"
    using layers_invD(2)[OF inv] all ts(2) by simp
  note li = layer_index_distinct[OF dc]
  have inL: "\<exists>i<length L. p \<in> set (L ! i)" if "p \<in> set (keys (nodes g))" for p
  proof -
    from that cov have "p \<in> set (concat L)" by simp
    then obtain l where "l \<in> set L" "p \<in> set l" by auto
    then obtain i where "i < length L" "L ! i = l" by (meson in_set_conv_nth)
    with \<open>p \<in> set l\<close> show ?thesis by blast
  qed
  have 1: "\<forall>p\<in>set (keys (nodes g)). \<exists>!i. i < length L \<and> p \<in> set (L ! i)"
  proof
    fix p assume "p \<in> set (keys (nodes g))"
    from inL[OF this] obtain i where i: "i < length L" "p \<in> set (L ! i)" by blast
    show "\<exists>!i. i < length L \<and> p \<in> set (L ! i)"
    proof (rule ex1I[of _ i])
      show "i < length L \<and> p \<in> set (L ! i)" using i by simp
    next
      fix j assume "j < length L \<and> p \<in> set (L ! j)"
      then show "j = i" using concat_distinct_unique[OF dc _ i(1) _ i(2), of j] by simp
    qed
  qed
  have 2: "\<forall>i<length L. set (L ! i) \<subseteq> set (keys (nodes g))"
  proof (intro allI impI)
    fix i assume "i < length L"
    then have "L ! i \<in> set L" by (rule nth_mem)
    then have "set (L ! i) \<subseteq> set (concat L)" by auto
    then show "set (L ! i) \<subseteq> set (keys (nodes g))" using cov by simp
  qed
  have 3: "\<forall>p\<in>set (keys (nodes g)).
        layer_index L p =
          Some (if deps_of g p = [] then 0
                else 1 + Max {k. \<exists>d\<in>set (deps_of g p). layer_index L d = Some k})"
  proof
    fix p assume "p \<in> set (keys (nodes g))"
    from inL[OF this] obtain i where i: "i < length L" "p \<in> set (L ! i)" by blast
    then have "layer_index L p = Some i" by (simp add: li)
    with layers_inv_index[OF inv i] show "layer_index L p =
          Some (if deps_of g p = [] then 0
                else 1 + Max {k. \<exists>d\<in>set (deps_of g p). layer_index L d = Some k})" by simp
  qed
  have 4: "\<forall>p\<in>set (keys (nodes g)). layer_index L p = Some 0 \<longleftrightarrow> deps_of g p = []"
  proof
    fix p assume "p \<in> set (keys (nodes g))"
    with 3 show "layer_index L p = Some 0 \<longleftrightarrow> deps_of g p = []" by simp
  qed
  have 5: "\<forall>i<length L. \<forall>p\<in>set (L ! i). \<forall>d\<in>set (deps_of g p). \<exists>j<i. d \<in> set (L ! j)"
  proof (intro allI impI ballI)
    fix i p d assume i: "i < length L" and p: "p \<in> set (L ! i)" and d: "d \<in> set (deps_of g p)"
    from layers_inv_deps(2)[OF inv i p] d have "d \<in> set (concat (take i L))" by blast
    then show "\<exists>j<i. d \<in> set (L ! j)" unfolding set_concat_take by blast
  qed
  show ?thesis by (intro exI[of _ L] conjI L 1 2 3 4 5)
qed

text \<open>
  C2.  For a graph that satisfies the invariant and the ordering that topologicalSort
  returns for it (which, by C1, it does exactly when the graph is acyclic), getBuildLayers
  returns layers such that: every package is in exactly one layer and every layer holds
  only packages; the layer index of a package is 0 when it has no dependency in the graph
  and otherwise 1 + the largest layer index of its dependencies; so layer 0 holds exactly
  the packages without dependencies, and every dependency of a package of layer i is in a
  layer j < i.
\<close>

theorem getBuildLayers_layering:
  assumes "wf_graph g" and "topologicalSort g = Inr srt"
  shows "\<exists>layers. getBuildLayers srt g = Inr layers \<and>
     (\<forall>p\<in>set (keys (nodes g)). \<exists>!i. i < length layers \<and> p \<in> set (layers ! i)) \<and>
     (\<forall>i<length layers. set (layers ! i) \<subseteq> set (keys (nodes g))) \<and>
     (\<forall>p\<in>set (keys (nodes g)).
        layer_index layers p =
          Some (if deps_of g p = [] then 0
                else 1 + Max {k. \<exists>d\<in>set (deps_of g p). layer_index layers d = Some k})) \<and>
     (\<forall>p\<in>set (keys (nodes g)). layer_index layers p = Some 0 \<longleftrightarrow> deps_of g p = []) \<and>
     (\<forall>i<length layers. \<forall>p\<in>set (layers ! i). \<forall>d\<in>set (deps_of g p).
        \<exists>j<i. d \<in> set (layers ! j))"
  using assms by (rule getBuildLayers_sorted)

text \<open>
  C9.  When the input ordering lists each package once and every dependency of a package
  stands before the package (as the successful output of topologicalSort does, lemma
  \<open>topologicalSort_Inr\<close>), getBuildLayers never takes the no-progress branch: it
  returns layers, every pass has assigned at least one package, and all packages of the
  ordering are assigned.
\<close>

theorem getBuildLayers_progress:
  assumes "distinct srt" and "topo_ordered g {} srt"
  shows "getBuildLayers srt g \<noteq> Inl LayeringInconsistency \<and>
     (\<exists>layers. getBuildLayers srt g = Inr layers \<and> (\<forall>l\<in>set layers. l \<noteq> []) \<and>
        set (concat layers) = set srt)"
proof -
  from getBuildLayers_inv[OF assms]
  obtain L as where L: "getBuildLayers srt g = Inr L" and inv: "layers_inv srt g L as"
    and all: "set as = set srt" by blast
  have ne: "\<forall>l\<in>set L. l \<noteq> []"
  proof
    fix l assume "l \<in> set L"
    then obtain j where j: "j < length L" "L ! j = l" by (meson in_set_conv_nth)
    from layers_invD(5)[OF inv j(1)] have "L ! j \<noteq> []" by (rule conjunct2)
    then show "l \<noteq> []" unfolding j(2) .
  qed
  have cov: "set (concat L) = set srt" using layers_invD(2)[OF inv] all by simp
  have "getBuildLayers srt g \<noteq> Inl LayeringInconsistency" using L by simp
  moreover have "\<exists>layers. getBuildLayers srt g = Inr layers \<and> (\<forall>l\<in>set layers. l \<noteq> []) \<and>
        set (concat layers) = set srt"
    by (intro exI[of _ L] conjI L ne cov)
  ultimately show ?thesis by (rule conjI)
qed

definition fork_pkgs :: "(string, PackageInfo) js_map" where
  "fork_pkgs = [(''a'', createPackage ''a'' []),
                (''b'', createPackage ''b'' [''a'']),
                (''c'', createPackage ''c'' [''a'', ''x''])]"

lemma fork_graph:
  "buildDependencyGraph fork_pkgs =
     \<lparr>nodes = fork_pkgs,
      edges = [(''a'', []), (''b'', [''a'']), (''c'', [''a''])],
      reverseEdges = [(''a'', [''b'', ''c'']), (''b'', []), (''c'', [])]\<rparr>"
  by (simp add: buildDependencyGraph_def fork_pkgs_def add_dep_def has_def keys_def
        set_add_def createPackage_def)

lemma fork_sorted:
  "topologicalSort (buildDependencyGraph fork_pkgs) = Inr [''a'', ''b'', ''c'']"
  unfolding fork_graph
  by (simp add: topologicalSort_def kahn_result_def keys_def fork_pkgs_def dependents_def Let_def)


lemma fork_layers:
  "getBuildLayers [''a'', ''b'', ''c''] (buildDependencyGraph fork_pkgs) =
     Inr [[''a''], [''b'', ''c'']]"
  unfolding fork_graph
  by (simp add: getBuildLayers_def next_layer_def deps_of_def set_add_def Let_def)


theorem getBuildLayers_layering_witness:
  "wf_graph (buildDependencyGraph fork_pkgs) \<and>
   topologicalSort (buildDependencyGraph fork_pkgs) = Inr [''a'', ''b'', ''c''] \<and>
   getBuildLayers [''a'', ''b'', ''c''] (buildDependencyGraph fork_pkgs) = Inr [[''a''], [''b'', ''c'']] \<and>
   (\<exists>layers. getBuildLayers [''a'', ''b'', ''c''] (buildDependencyGraph fork_pkgs) = Inr layers \<and>
     (\<forall>p\<in>set (keys (nodes (buildDependencyGraph fork_pkgs))).
        \<exists>!i. i < length layers \<and> p \<in> set (layers ! i)) \<and>
     (\<forall>i<length layers. set (layers ! i) \<subseteq> set (keys (nodes (buildDependencyGraph fork_pkgs)))) \<and>
     (\<forall>p\<in>set (keys (nodes (buildDependencyGraph fork_pkgs))).
        layer_index layers p =
          Some (if deps_of (buildDependencyGraph fork_pkgs) p = [] then 0
                else 1 + Max {k. \<exists>d\<in>set (deps_of (buildDependencyGraph fork_pkgs) p).
                                   layer_index layers d = Some k})) \<and>
     (\<forall>p\<in>set (keys (nodes (buildDependencyGraph fork_pkgs))).
        layer_index layers p = Some 0 \<longleftrightarrow> deps_of (buildDependencyGraph fork_pkgs) p = []) \<and>
     (\<forall>i<length layers. \<forall>p\<in>set (layers ! i).
        \<forall>d\<in>set (deps_of (buildDependencyGraph fork_pkgs) p). \<exists>j<i. d \<in> set (layers ! j)))"
proof -
  have w: "wf_graph (buildDependencyGraph fork_pkgs)"
    by (rule buildDependencyGraph_wf) (simp add: is_Map_def fork_pkgs_def)
  note c = getBuildLayers_layering[OF w fork_sorted]
  show ?thesis by (intro conjI w fork_sorted fork_layers c)
qed

theorem getBuildLayers_progress_witness:
  "distinct [''a'', ''b'', ''c''] \<and>
   topo_ordered (buildDependencyGraph fork_pkgs) {} [''a'', ''b'', ''c''] \<and>
   getBuildLayers [''a'', ''b'', ''c''] (buildDependencyGraph fork_pkgs) \<noteq> Inl LayeringInconsistency \<and>
   (\<exists>layers. getBuildLayers [''a'', ''b'', ''c''] (buildDependencyGraph fork_pkgs) = Inr layers \<and>
      (\<forall>l\<in>set layers. l \<noteq> []) \<and> set (concat layers) = set [''a'', ''b'', ''c''])"
proof -
  have d: "distinct [''a'', ''b'', ''c'']" by simp
  have t: "topo_ordered (buildDependencyGraph fork_pkgs) {} [''a'', ''b'', ''c'']"
    unfolding fork_graph by (simp add: deps_of_def)
  note c = getBuildLayers_progress[OF d t]
  show ?thesis by (intro conjI d t c[THEN conjunct1] c[THEN conjunct2])
qed

section \<open>utils/mtime.ts\<close>

text \<open>
  The file system that \<open>needsBuild\<close> probes is a tree.  A regular file carries the result
  of \<open>fs.stat\<close>: its \<open>mtimeMs\<close>, or nothing when \<open>stat\<close> throws.  A directory carries
  a flag that tells whether \<open>readdir\<close> succeeds on it, and its entries in \<open>readdir\<close>
  order; the entries are what path resolution finds, also in a directory that cannot be
  listed.  \<open>LinkN (Some n)\<close> is a symbolic link that resolves to \<open>n\<close>, \<open>LinkN None\<close>
  one that does not resolve; \<open>OtherN\<close> is any other entry (a socket, a FIFO).  A path is
  the list of its components from the root, and \<open>path.join(dir, name)\<close> is
  \<open>dir @ [name]\<close>.  Timestamps are JavaScript numbers that are only compared, with each
  other and with 0; they are modelled as reals.
\<close>

type_synonym mtime = real
type_synonym fpath = "string list"

datatype fsnode =
    FileN "mtime option"
  | DirN bool "(string \<times> fsnode) list"
  | LinkN "fsnode option"
  | OtherN

text \<open>
  \<open>fs.access\<close>, \<open>fs.readdir\<close> and \<open>fs.stat\<close> resolve symbolic links, in every
  component of the path and in the last one.
\<close>

fun follow :: "fsnode \<Rightarrow> fsnode option" where
  "follow (LinkN (Some n)) = follow n"
| "follow (LinkN None) = None"
| "follow (FileN t) = Some (FileN t)"
| "follow (DirN listable entries) = Some (DirN listable entries)"
| "follow OtherN = Some OtherN"

fun lookup :: "fsnode \<Rightarrow> fpath \<Rightarrow> fsnode option" where
  "lookup n [] = follow n"
| "lookup n (nm # rest) =
     (case follow n of
        Some (DirN listable entries) \<Rightarrow>
          (case map_of entries nm of Some e \<Rightarrow> lookup e rest | None \<Rightarrow> None)
      | _ \<Rightarrow> None)"

definition EXCLUDE_DIRS :: "string list" where
  "EXCLUDE_DIRS = [''node_modules'', ''dist'', ''.next'', ''build'', ''.git'', ''coverage'']"

text \<open>
  \<open>walkDir\<close>: \<open>walkNode dir n\<close> is the call on the directory path \<open>dir\<close> that resolves
  to the node \<open>n\<close>.  When \<open>readdir\<close> throws (the path is missing, is not a directory, or
  cannot be listed) the \<open>catch\<close> leaves \<open>files\<close> empty.  An excluded name is skipped
  before the type of the entry is looked at, so whether it names a file or a directory, at
  every depth.  The type of an entry is the entry's own: for a symbolic link both
  \<open>isDirectory()\<close> and \<open>isFile()\<close> are false.
\<close>

fun walkNode :: "fpath \<Rightarrow> fsnode \<Rightarrow> string list \<Rightarrow> fpath list"
  and walkEntries :: "fpath \<Rightarrow> (string \<times> fsnode) list \<Rightarrow> string list \<Rightarrow> fpath list" where
  "walkNode dir (DirN listable entries) exclude =
     (if listable then walkEntries dir entries exclude else [])"
| "walkNode dir (FileN t) exclude = []"
| "walkNode dir (LinkN l) exclude = []"
| "walkNode dir OtherN exclude = []"
| "walkEntries dir [] exclude = []"
| "walkEntries dir ((nm, e) # es) exclude =
     (if nm \<in> set exclude then walkEntries dir es exclude
      else (case e of
              DirN listable entries \<Rightarrow> walkNode (dir @ [nm]) e exclude
            | FileN t \<Rightarrow> [dir @ [nm]]
            | LinkN l \<Rightarrow> []
            | OtherN \<Rightarrow> []) @ walkEntries dir es exclude)"

definition walkDir :: "fsnode \<Rightarrow> fpath \<Rightarrow> string list \<Rightarrow> fpath list" where
  "walkDir fs dir exclude =
     (case lookup fs dir of Some n \<Rightarrow> walkNode dir n exclude | None \<Rightarrow> [])"

text \<open>\<open>getMtime\<close> is only called on the paths that \<open>walkDir\<close> returned.\<close>

definition getMtime :: "fsnode \<Rightarrow> fpath \<Rightarrow> error + mtime" where
  "getMtime fs filePath =
     (case lookup fs filePath of Some (FileN (Some t)) \<Rightarrow> Inr t | _ \<Rightarrow> Inl IOError)"

definition getNewestMtime :: "fsnode \<Rightarrow> fpath \<Rightarrow> string list \<Rightarrow> mtime" where
  "getNewestMtime fs dir exclude =
     (let files = walkDir fs dir exclude in
      if files = [] then 0
      else fold (\<lambda>file newest.
                   case getMtime fs file of
                     Inr mt \<Rightarrow> if mt > newest then mt else newest
                   | Inl _ \<Rightarrow> newest) files 0)"

text \<open>In the loop of \<open>getOldestMtime\<close>, \<open>None\<close> stands for the initial \<open>Infinity\<close>.\<close>

definition getOldestMtime :: "fsnode \<Rightarrow> fpath \<Rightarrow> mtime" where
  "getOldestMtime fs dir =
     (let files = walkDir fs dir [] in
      if files = [] then 0
      else (case fold (\<lambda>file oldest.
                         case getMtime fs file of
                           Inr mt \<Rightarrow> (case oldest of
                                        None \<Rightarrow> Some mt
                                      | Some ol \<Rightarrow> if mt < ol then Some mt else Some ol)
                         | Inl _ \<Rightarrow> oldest) files None of
              None \<Rightarrow> 0
            | Some ol \<Rightarrow> ol))"

definition access :: "fsnode \<Rightarrow> fpath \<Rightarrow> bool" where
  "access fs p \<longleftrightarrow> lookup fs p \<noteq> None"

definition needsBuild :: "fsnode \<Rightarrow> fpath \<Rightarrow> bool" where
  "needsBuild fs pkgPath =
     (let distPath = pkgPath @ [''dist''] in
      if \<not> access fs distPath then True
      else (let newestSource = getNewestMtime fs pkgPath EXCLUDE_DIRS;
                oldestDist = getOldestMtime fs distPath
            in if oldestDist = 0 then True
               else if newestSource = 0 then False
               else newestSource > oldestDist))"

subsection \<open>The files of the specification\<close>

text \<open>
  The specification compares the timestamps of \<^emph>\<open>all files under the package directory,
  excluding a fixed set of subdirectory names\<close> with those of \<^emph>\<open>all files under the
  build-output location\<close>.  \<open>files_under fs dir excluded\<close> follows these words: the
  regular files that listing \<open>dir\<close> recursively finds, without going into a subdirectory
  whose name is excluded.  A regular file is a file under the directory whatever its name.
  This definition is not a translation of \<open>walkDir\<close>; the two are compared below.
\<close>

fun filesNode :: "fpath \<Rightarrow> fsnode \<Rightarrow> string list \<Rightarrow> fpath list"
  and filesEntries :: "fpath \<Rightarrow> (string \<times> fsnode) list \<Rightarrow> string list \<Rightarrow> fpath list" where
  "filesNode dir (DirN listable entries) excluded =
     (if listable then filesEntries dir entries excluded else [])"
| "filesNode dir (FileN t) excluded = []"
| "filesNode dir (LinkN l) excluded = []"
| "filesNode dir OtherN excluded = []"
| "filesEntries dir [] excluded = []"
| "filesEntries dir ((nm, e) # es) excluded =
     (case e of
        FileN t \<Rightarrow> [dir @ [nm]]
      | DirN listable entries \<Rightarrow>
          if nm \<in> set excluded then [] else filesNode (dir @ [nm]) e excluded
      | LinkN l \<Rightarrow> []
      | OtherN \<Rightarrow> []) @ filesEntries dir es excluded"

definition files_under :: "fsnode \<Rightarrow> fpath \<Rightarrow> string list \<Rightarrow> fpath list" where
  "files_under fs dir excluded =
     (case lookup fs dir of Some n \<Rightarrow> filesNode dir n excluded | None \<Rightarrow> [])"

definition source_files :: "fsnode \<Rightarrow> fpath \<Rightarrow> fpath list" where
  "source_files fs pkgPath = files_under fs pkgPath EXCLUDE_DIRS"

definition output_files :: "fsnode \<Rightarrow> fpath \<Rightarrow> fpath list" where
  "output_files fs pkgPath = files_under fs (pkgPath @ [''dist'']) []"

text \<open>The timestamps of the files of a list, those that can be read.\<close>

definition mtimes :: "fsnode \<Rightarrow> fpath list \<Rightarrow> mtime list" where
  "mtimes fs files =
     concat (map (\<lambda>f. case getMtime fs f of Inr t \<Rightarrow> [t] | Inl _ \<Rightarrow> []) files)"

text \<open>
  A package whose manifest, source file and output file all have the timestamp 0 (the
  epoch, as left by archives that drop timestamps).
\<close>

definition epoch_fs :: fsnode where
  "epoch_fs =
     DirN True [(''pkg'', DirN True [(''package.json'', FileN (Some 0)),
                                     (''index.ts'', FileN (Some 0)),
                                     (''dist'', DirN True [(''index.js'', FileN (Some 0))])])]"

text \<open>
  A package with a regular file named \<open>build\<close> (a build script) that is newer than
  the output.
\<close>

definition script_fs :: fsnode where
  "script_fs =
     DirN True [(''pkg'', DirN True [(''package.json'', FileN (Some 1000)),
                                     (''build'', FileN (Some 9000)),
                                     (''dist'', DirN True [(''index.js'', FileN (Some 2000))])])]"

text \<open>
  Two packages whose manifest is a symbolic link and that hold nothing else than their
  output location, empty for the first and with one file for the second.
\<close>

definition empty_dist_fs :: fsnode where
  "empty_dist_fs =
     DirN True [(''pkg'', DirN True [(''package.json'', LinkN (Some (FileN (Some 900)))),
                                     (''dist'', DirN True [])])]"

definition nosource_fs :: fsnode where
  "nosource_fs =
     DirN True [(''pkg'', DirN True [(''package.json'', LinkN (Some (FileN (Some 900)))),
                                     (''dist'', DirN True [(''index.js'', FileN (Some 2000))])])]"

section \<open>The incremental decision\<close>

lemma mtimes_Cons:
  "mtimes fs (f # files) =
     (case getMtime fs f of Inr t \<Rightarrow> [t] | Inl _ \<Rightarrow> []) @ mtimes fs files"
  by (simp add: mtimes_def)

lemma newest_fold_bounds:
  "fold (\<lambda>file newest. case getMtime fs file of
                          Inr mt \<Rightarrow> if mt > newest then mt else newest
                        | Inl _ \<Rightarrow> newest) files acc = r \<Longrightarrow>
   r \<in> insert acc (set (mtimes fs files)) \<and> (\<forall>x\<in>insert acc (set (mtimes fs files)). x \<le> r)"
proof (induction files arbitrary: acc)
  case Nil
  then show ?case by (simp add: mtimes_def)
next
  case (Cons f files)
  show ?case
  proof (cases "getMtime fs f")
    case (Inl e)
    with Cons.prems Cons.IH[of acc] show ?thesis by (simp add: mtimes_Cons)
  next
    case (Inr t)
    with Cons.prems Cons.IH[of "if t > acc then t else acc"]
    have ih: "r \<in> insert (if t > acc then t else acc) (set (mtimes fs files))"
      "\<forall>x\<in>insert (if t > acc then t else acc) (set (mtimes fs files)). x \<le> r"
      by simp_all
    have set_eq: "set (mtimes fs (f # files)) = insert t (set (mtimes fs files))"
      using Inr by (simp add: mtimes_Cons)
    have "r \<in> insert acc (insert t (set (mtimes fs files)))"
      using ih(1) by (cases "t > acc") auto
    moreover have "\<forall>x\<in>insert acc (insert t (set (mtimes fs files))). x \<le> r"
    proof
      fix x assume x: "x \<in> insert acc (insert t (set (mtimes fs files)))"
      have m: "(if t > acc then t else acc) \<le> r" using ih(2) by blast
      from x consider "x = acc" | "x = t" | "x \<in> set (mtimes fs files)" by blast
      then show "x \<le> r"
      proof cases
        case 1 then show ?thesis using m by (cases "t > acc") simp_all
      next
        case 2 then show ?thesis using m by (cases "t > acc") simp_all
      next
        case 3 then show ?thesis using ih(2) by blast
      qed
    qed
    ultimately show ?thesis unfolding set_eq by blast
  qed
qed

lemma newest_fold:
  "fold (\<lambda>file newest. case getMtime fs file of
                          Inr mt \<Rightarrow> if mt > newest then mt else newest
                        | Inl _ \<Rightarrow> newest) files acc
     = Max (insert acc (set (mtimes fs files)))"
proof -
  from newest_fold_bounds[where fs = fs and files = files and acc = acc, OF refl] show ?thesis
    by (intro Max_eqI[symmetric]) auto
qed

lemma oldest_fold_bounds:
  "fold (\<lambda>file oldest. case getMtime fs file of
                          Inr mt \<Rightarrow> (case oldest of
                                       None \<Rightarrow> Some mt
                                     | Some ol \<Rightarrow> if mt < ol then Some mt else Some ol)
                        | Inl _ \<Rightarrow> oldest) files acc = r \<Longrightarrow>
   (r = None \<longrightarrow> acc = None \<and> mtimes fs files = []) \<and>
   (\<forall>m. r = Some m \<longrightarrow>
      m \<in> set_option acc \<union> set (mtimes fs files) \<and>
      (\<forall>x\<in>set_option acc \<union> set (mtimes fs files). m \<le> x))"
proof (induction files arbitrary: acc)
  case Nil
  then have "r = acc" by simp
  then show ?case by (cases acc) (simp_all add: mtimes_def)
next
  case (Cons f files)
  show ?case
  proof (cases "getMtime fs f")
    case (Inl e)
    then have eq: "mtimes fs (f # files) = mtimes fs files" by (simp add: mtimes_Cons)
    from Inl Cons.prems have "fold (\<lambda>file oldest. case getMtime fs file of
                          Inr mt \<Rightarrow> (case oldest of
                                       None \<Rightarrow> Some mt
                                     | Some ol \<Rightarrow> if mt < ol then Some mt else Some ol)
                        | Inl _ \<Rightarrow> oldest) files acc = r" by simp
    from Cons.IH[OF this] show ?thesis unfolding eq .
  next
    case (Inr t)
    let ?acc' = "case acc of None \<Rightarrow> Some t | Some ol \<Rightarrow> if t < ol then Some t else Some ol"
    have set_eq: "set (mtimes fs (f # files)) = insert t (set (mtimes fs files))"
      using Inr by (simp add: mtimes_Cons)
    from Inr Cons.prems have "fold (\<lambda>file oldest. case getMtime fs file of
                          Inr mt \<Rightarrow> (case oldest of
                                       None \<Rightarrow> Some mt
                                     | Some ol \<Rightarrow> if mt < ol then Some mt else Some ol)
                        | Inl _ \<Rightarrow> oldest) files ?acc' = r" by simp
    note ih = Cons.IH[OF this]
    have nn: "?acc' \<noteq> None" by (cases acc) simp_all
    with ih obtain m where r: "r = Some m" by (cases r) auto
    with ih have ih1: "m \<in> set_option ?acc' \<union> set (mtimes fs files)"
      and ih2: "\<forall>x\<in>set_option ?acc' \<union> set (mtimes fs files). m \<le> x" by simp_all
    have sub: "set_option ?acc' \<subseteq> set_option acc \<union> {t}"
      by (cases acc) (auto split: if_splits)
    have "\<exists>a'. ?acc' = Some a' \<and> a' \<le> t \<and> (\<forall>x\<in>set_option acc. a' \<le> x)"
    proof (cases acc)
      case None
      then show ?thesis by simp
    next
      case (Some a)
      then show ?thesis by (cases "t < a") auto
    qed
    then obtain a' where a': "?acc' = Some a'" "a' \<le> t" "\<forall>x\<in>set_option acc. a' \<le> x"
      by blast
    have "m \<le> a'" using ih2 a'(1) by simp
    have 1: "m \<in> set_option acc \<union> insert t (set (mtimes fs files))" using ih1 sub by blast
    have 2: "\<forall>x\<in>set_option acc \<union> insert t (set (mtimes fs files)). m \<le> x"
    proof
      fix x assume "x \<in> set_option acc \<union> insert t (set (mtimes fs files))"
      then consider "x \<in> set_option acc" | "x = t" | "x \<in> set (mtimes fs files)" by blast
      then show "m \<le> x"
      proof cases
        case 1 with a'(3) \<open>m \<le> a'\<close> show ?thesis by fastforce
      next
        case 2 with a'(2) \<open>m \<le> a'\<close> show ?thesis by simp
      next
        case 3 with ih2 show ?thesis by blast
      qed
    qed
    show ?thesis unfolding set_eq r using 1 2 by simp
  qed
qed

lemma getNewestMtime_eq:
  "getNewestMtime fs dir exclude =
     (if walkDir fs dir exclude = [] then 0
      else Max (insert 0 (set (mtimes fs (walkDir fs dir exclude)))))"
  by (simp add: getNewestMtime_def Let_def newest_fold)

lemma getOldestMtime_eq:
  "getOldestMtime fs dir =
     (if mtimes fs (walkDir fs dir []) = [] then 0
      else Min (set (mtimes fs (walkDir fs dir []))))"
proof -
  let ?files = "walkDir fs dir []"
  let ?r = "fold (\<lambda>file oldest. case getMtime fs file of
                          Inr mt \<Rightarrow> (case oldest of
                                       None \<Rightarrow> Some mt
                                     | Some ol \<Rightarrow> if mt < ol then Some mt else Some ol)
                        | Inl _ \<Rightarrow> oldest) ?files None"
  note b = oldest_fold_bounds[where fs = fs and files = "?files" and acc = None, OF refl]
  show ?thesis
  proof (cases ?r)
    case None
    with b have "mtimes fs ?files = []" by blast
    then show ?thesis using None by (simp add: getOldestMtime_def Let_def)
  next
    case (Some m)
    with b have m: "m \<in> set (mtimes fs ?files)" "\<forall>x\<in>set (mtimes fs ?files). m \<le> x" by auto
    then have ne: "mtimes fs ?files \<noteq> []" by auto
    then have fne: "?files \<noteq> []" by (auto simp: mtimes_def)
    have "Min (set (mtimes fs ?files)) = m" using m by (intro Min_eqI) auto
    then show ?thesis using Some ne fne by (simp add: getOldestMtime_def Let_def)
  qed
qed

text \<open>
  \<open>walkDir\<close> against the files of the specification: without excluded names they are
  the same, and with excluded names \<open>walkDir\<close> finds no other files.
\<close>

lemma walk_no_exclude:
  "walkNode dir n [] = filesNode dir n []"
  "walkEntries dir es [] = filesEntries dir es []"
proof (induction dir n "[]::string list" and dir es "[]::string list"
    rule: walkNode_walkEntries.induct)
  case (6 dir nm e es)
  then show ?case by (cases e) simp_all
qed simp_all

lemma walk_subset:
  "set (walkNode dir n exclude) \<subseteq> set (filesNode dir n exclude)"
  "set (walkEntries dir es exclude) \<subseteq> set (filesEntries dir es exclude)"
proof (induction dir n exclude and dir es exclude rule: walkNode_walkEntries.induct)
  case (6 dir nm e es exclude)
  show ?case
  proof (cases "nm \<in> set exclude")
    case True
    with 6 show ?thesis by auto
  next
    case False
    with 6 show ?thesis by (cases e) auto
  qed
qed auto

lemma walkDir_outputs: "walkDir fs dir [] = files_under fs dir []"
  by (simp add: walkDir_def files_under_def walk_no_exclude split: option.splits)

lemma walkDir_no_sources:
  assumes "files_under fs dir exclude = []"
  shows "walkDir fs dir exclude = []"
proof (cases "lookup fs dir")
  case None
  then show ?thesis by (simp add: walkDir_def)
next
  case (Some n)
  with assms have "filesNode dir n exclude = []" by (simp add: files_under_def)
  with walk_subset(1)[of dir n exclude] have "walkNode dir n exclude = []" by simp
  with Some show ?thesis by (simp add: walkDir_def)
qed

lemma epoch_fs_files:
  "access epoch_fs [''pkg'', ''dist'']"
  "source_files epoch_fs [''pkg''] = [[''pkg'', ''package.json''], [''pkg'', ''index.ts'']]"
  "output_files epoch_fs [''pkg''] = [[''pkg'', ''dist'', ''index.js'']]"
  "mtimes epoch_fs [[''pkg'', ''package.json''], [''pkg'', ''index.ts'']] = [0, 0]"
  "mtimes epoch_fs [[''pkg'', ''dist'', ''index.js'']] = [0]"
  by (simp_all add: access_def source_files_def output_files_def files_under_def epoch_fs_def
        EXCLUDE_DIRS_def mtimes_def getMtime_def)

lemma epoch_fs_stale: "needsBuild epoch_fs [''pkg'']"
  by (simp add: needsBuild_def access_def getNewestMtime_def getOldestMtime_def walkDir_def
        epoch_fs_def EXCLUDE_DIRS_def getMtime_def Let_def)

text \<open>
  C3.  The claim is right and the code departs from it where a timestamp is 0.  In
  \<open>epoch_fs\<close> the output location exists and holds one file, the package has two source
  files, and the newest source timestamp (0) is not greater than the oldest output
  timestamp (0), so the claim says fresh.  \<open>getOldestMtime\<close> returns 0, which is also
  what it returns for an output location without files, and \<open>needsBuild\<close> returns
  \<open>true\<close> on the line \<open>if (oldestDist === 0) return true; // Empty dist\<close>.
\<close>

theorem needsBuild_zero_timestamp:
  "access epoch_fs [''pkg'', ''dist''] \<and>
   source_files epoch_fs [''pkg''] = [[''pkg'', ''package.json''], [''pkg'', ''index.ts'']] \<and>
   output_files epoch_fs [''pkg''] = [[''pkg'', ''dist'', ''index.js'']] \<and>
   mtimes epoch_fs (source_files epoch_fs [''pkg'']) = [0, 0] \<and>
   mtimes epoch_fs (output_files epoch_fs [''pkg'']) = [0] \<and>
   \<not> Max (set (mtimes epoch_fs (source_files epoch_fs [''pkg'']))) >
       Min (set (mtimes epoch_fs (output_files epoch_fs [''pkg'']))) \<and>
   needsBuild epoch_fs [''pkg'']"
  by (simp add: epoch_fs_files epoch_fs_stale)

text \<open>
  Away from these sentinels the code decides as the claim says: when the output location
  does not exist the package is stale, and when it exists, \<open>walkDir\<close> reads the same
  source timestamps as the specification, and the newest source timestamp is positive, the
  package is stale exactly when the newest source timestamp is greater than the oldest
  output timestamp.
\<close>

lemma needsBuild_agrees:
  assumes "access fs (pkgPath @ [''dist'']) \<longrightarrow>
           set (mtimes fs (walkDir fs pkgPath EXCLUDE_DIRS)) =
             set (mtimes fs (source_files fs pkgPath)) \<and>
           mtimes fs (source_files fs pkgPath) \<noteq> [] \<and>
           mtimes fs (output_files fs pkgPath) \<noteq> [] \<and>
           0 < Max (set (mtimes fs (source_files fs pkgPath)))"
  shows "needsBuild fs pkgPath \<longleftrightarrow>
           \<not> access fs (pkgPath @ [''dist'']) \<or>
           Max (set (mtimes fs (source_files fs pkgPath))) >
             Min (set (mtimes fs (output_files fs pkgPath)))"
proof (cases "access fs (pkgPath @ [''dist''])")
  case False
  then show ?thesis by (simp add: needsBuild_def)
next
  case True
  let ?W = "mtimes fs (walkDir fs pkgPath EXCLUDE_DIRS)"
  let ?S = "mtimes fs (source_files fs pkgPath)" and ?O = "mtimes fs (output_files fs pkgPath)"
  from True assms have w: "set ?W = set ?S" and s: "?S \<noteq> []" and o: "?O \<noteq> []"
    and sp: "0 < Max (set ?S)" by simp_all
  from w s have wne: "?W \<noteq> []" by auto
  then have sf: "walkDir fs pkgPath EXCLUDE_DIRS \<noteq> []" by (auto simp: mtimes_def)
  have "Max (insert 0 (set ?W)) = max 0 (Max (set ?W))" using wne by simp
  then have n: "getNewestMtime fs pkgPath EXCLUDE_DIRS = Max (set ?S)"
    using sf sp w by (simp add: getNewestMtime_eq)
  have ol: "getOldestMtime fs (pkgPath @ [''dist'']) = Min (set ?O)"
    using o by (simp add: getOldestMtime_eq walkDir_outputs output_files_def)
  show ?thesis using True n ol sp by (auto simp: needsBuild_def Let_def)
qed

text \<open>
  A second departure: \<open>walkDir\<close> skips an excluded name before it looks
  at the type of the entry, so a regular file named \<open>build\<close> is no source for the code,
  while it is a file under the package directory and not a subdirectory.  In \<open>script_fs\<close>
  the newest source timestamp is 9000, greater than the oldest output timestamp 2000, and
  the code says fresh.
\<close>

lemma needsBuild_excluded_file_name:
  "access script_fs [''pkg'', ''dist''] \<and>
   source_files script_fs [''pkg''] = [[''pkg'', ''package.json''], [''pkg'', ''build'']] \<and>
   walkDir script_fs [''pkg''] EXCLUDE_DIRS = [[''pkg'', ''package.json'']] \<and>
   mtimes script_fs (source_files script_fs [''pkg'']) = [1000, 9000] \<and>
   mtimes script_fs (output_files script_fs [''pkg'']) = [2000] \<and>
   Max (set (mtimes script_fs (source_files script_fs [''pkg'']))) >
     Min (set (mtimes script_fs (output_files script_fs [''pkg'']))) \<and>
   \<not> needsBuild script_fs [''pkg'']"
  by (simp add: needsBuild_def access_def getNewestMtime_def getOldestMtime_def walkDir_def
        source_files_def output_files_def files_under_def
        script_fs_def EXCLUDE_DIRS_def getMtime_def mtimes_def Let_def)

lemma empty_dist_fs_files:
  "source_files empty_dist_fs [''pkg''] = []"
  "access empty_dist_fs [''pkg'', ''dist'']"
  "output_files empty_dist_fs [''pkg''] = []"
  by (simp_all add: access_def source_files_def output_files_def files_under_def
        empty_dist_fs_def EXCLUDE_DIRS_def)

lemma empty_dist_fs_stale: "needsBuild empty_dist_fs [''pkg'']"
  by (simp add: needsBuild_def access_def getNewestMtime_def getOldestMtime_def walkDir_def
        empty_dist_fs_def EXCLUDE_DIRS_def getMtime_def Let_def)

text \<open>
  C6 as stated fails: a package with zero source files whose output location exists and
  holds zero files is stale, because \<open>needsBuild\<close> tests \<open>oldestDist === 0\<close> before
  \<open>newestSource === 0\<close>.  The manifest of the package is a symbolic link, which is not a
  regular file.
\<close>

theorem needsBuild_no_sources_counterexample:
  "source_files empty_dist_fs [''pkg''] = [] \<and> access empty_dist_fs [''pkg'', ''dist''] \<and>
   output_files empty_dist_fs [''pkg''] = [] \<and> needsBuild empty_dist_fs [''pkg'']"
  by (simp add: empty_dist_fs_files empty_dist_fs_stale)

text \<open>
  C6, as amended.  For a package with zero source files whose output location exists, the
  empty-output rule comes before the no-sources rule: the package is stale when the output
  location holds zero files.  It is fresh when an output timestamp can be read and the
  oldest one is not 0.
\<close>

theorem needsBuild_no_sources:
  "source_files fs pkgPath = [] \<and> access fs (pkgPath @ [''dist'']) \<longrightarrow>
     (output_files fs pkgPath = [] \<longrightarrow> needsBuild fs pkgPath) \<and>
     (mtimes fs (output_files fs pkgPath) \<noteq> [] \<and>
      Min (set (mtimes fs (output_files fs pkgPath))) \<noteq> 0 \<longrightarrow> \<not> needsBuild fs pkgPath)"
proof (intro impI conjI)
  assume a: "source_files fs pkgPath = [] \<and> access fs (pkgPath @ [''dist''])"
  assume "output_files fs pkgPath = []"
  then have "walkDir fs (pkgPath @ [''dist'']) [] = []"
    by (simp add: walkDir_outputs output_files_def)
  then have "getOldestMtime fs (pkgPath @ [''dist'']) = 0"
    by (simp add: getOldestMtime_def)
  then show "needsBuild fs pkgPath" by (simp add: needsBuild_def Let_def)
next
  assume a: "source_files fs pkgPath = [] \<and> access fs (pkgPath @ [''dist''])"
  assume b: "mtimes fs (output_files fs pkgPath) \<noteq> [] \<and>
      Min (set (mtimes fs (output_files fs pkgPath))) \<noteq> 0"
  from a have "walkDir fs pkgPath EXCLUDE_DIRS = []"
    by (intro walkDir_no_sources) (simp add: source_files_def)
  then have n: "getNewestMtime fs pkgPath EXCLUDE_DIRS = 0"
    by (simp add: getNewestMtime_def)
  have o: "getOldestMtime fs (pkgPath @ [''dist'']) =
             Min (set (mtimes fs (output_files fs pkgPath)))"
    using b by (simp add: getOldestMtime_eq walkDir_outputs output_files_def)
  show "\<not> needsBuild fs pkgPath"
    using a b n o by (simp add: needsBuild_def Let_def)
qed

lemma nosource_fs_files:
  "source_files nosource_fs [''pkg''] = []"
  "access nosource_fs [''pkg'', ''dist'']"
  "mtimes nosource_fs (output_files nosource_fs [''pkg'']) = [2000]"
  by (simp_all add: access_def source_files_def output_files_def files_under_def
        nosource_fs_def EXCLUDE_DIRS_def mtimes_def getMtime_def)

theorem needsBuild_no_sources_witness:
  "source_files empty_dist_fs [''pkg''] = [] \<and> access empty_dist_fs ([''pkg''] @ [''dist'']) \<and>
   output_files empty_dist_fs [''pkg''] = [] \<and> needsBuild empty_dist_fs [''pkg''] \<and>
   source_files nosource_fs [''pkg''] = [] \<and> access nosource_fs ([''pkg''] @ [''dist'']) \<and>
   mtimes nosource_fs (output_files nosource_fs [''pkg'']) \<noteq> [] \<and>
   Min (set (mtimes nosource_fs (output_files nosource_fs [''pkg'']))) \<noteq> 0 \<and>
   \<not> needsBuild nosource_fs [''pkg'']"
proof -
  have h1: "source_files empty_dist_fs [''pkg''] = [] \<and>
            access empty_dist_fs ([''pkg''] @ [''dist''])"
    by (simp add: empty_dist_fs_files)
  have h2: "source_files nosource_fs [''pkg''] = [] \<and>
            access nosource_fs ([''pkg''] @ [''dist''])"
    by (simp add: nosource_fs_files)
  have h3: "mtimes nosource_fs (output_files nosource_fs [''pkg'']) \<noteq> [] \<and>
            Min (set (mtimes nosource_fs (output_files nosource_fs [''pkg'']))) \<noteq> 0"
    by (simp add: nosource_fs_files)
  note a = needsBuild_no_sources[of empty_dist_fs "[''pkg'']", THEN mp, OF h1, THEN conjunct1,
      THEN mp, OF empty_dist_fs_files(3)]
  note b = needsBuild_no_sources[of nosource_fs "[''pkg'']", THEN mp, OF h2, THEN conjunct2,
      THEN mp, OF h3]
  show ?thesis
    by (intro conjI h1[THEN conjunct1] h1[THEN conjunct2] empty_dist_fs_files(3) a
          h2[THEN conjunct1] h2[THEN conjunct2] h3[THEN conjunct1] h3[THEN conjunct2] b)
qed


section \<open>core/workspace.ts\<close>

definition startsWith :: "string \<Rightarrow> string \<Rightarrow> bool" where
  "startsWith s p \<longleftrightarrow> take (length p) s = p"

text \<open>
  The own keys of a JavaScript object come in a fixed order: first the keys that are array
  indices (the decimal numerals, without a leading zero, of the numbers below
  \<open>2\<^sup>3\<^sup>2 - 1\<close>) in ascending numeric order, then the other keys in the order of their
  insertion.  \<open>Object.entries\<close> lists the entries in that order.
\<close>

definition index_value :: "string \<Rightarrow> int" where
  "index_value s = foldl (\<lambda>n c. 10 * n + (of_char c - 48)) 0 s"

definition is_index :: "string \<Rightarrow> bool" where
  "is_index s \<longleftrightarrow>
     s \<noteq> [] \<and> list_all (\<lambda>c. c \<in> set ''0123456789'') s \<and> (s = ''0'' \<or> hd s \<noteq> CHR ''0'') \<and>
     index_value s < 2 ^ 32 - 1"

definition Object_entries :: "(string, 'v) js_map \<Rightarrow> (string \<times> 'v) list" where
  "Object_entries obj =
     sort_key (\<lambda>(k, v). index_value k) (filter (\<lambda>(k, v). is_index k) obj) @
     filter (\<lambda>(k, v). \<not> is_index k) obj"

text \<open>
  \<open>{ ...dependencies, ...devDependencies }\<close> keeps the keys of \<open>dependencies\<close>,
  overwrites the version of a key that \<open>devDependencies\<close> has too, and adds the other
  keys of \<open>devDependencies\<close> after them.
\<close>

definition extractWorkspaceDependencies :: "PackageJsonData \<Rightarrow> string list" where
  "extractWorkspaceDependencies pj =
     (let allDeps = fold (\<lambda>(nm, version). AList.update nm version)
                         (devDependencies pj) (dependencies pj)
      in map fst (filter (\<lambda>(nm, version). startsWith version ''workspace:'')
                   (Object_entries allDeps)))"

text \<open>
  \<open>path.basename\<close> for POSIX paths: the last component, separators at the end of the
  path being ignored.
\<close>

definition basename :: "string \<Rightarrow> string" where
  "basename p =
     rev (takeWhile (\<lambda>c. c \<noteq> CHR ''/'') (dropWhile (\<lambda>c. c = CHR ''/'') (rev p)))"

text \<open>\<open>packageJson.name || path.basename(cwd)\<close>: an absent or empty name is falsy.\<close>

definition currentName :: "PackageJsonData \<Rightarrow> string \<Rightarrow> string" where
  "currentName pj cwd =
     (case pj_name pj of
        Some n \<Rightarrow> if n = [] then basename cwd else n
      | None \<Rightarrow> basename cwd)"

text \<open>
  \<open>collectRecursive\<close> with its closure variables \<open>visited\<close> and \<open>result\<close> passed as a
  state; \<open>collectEach\<close> is a \<open>for (const dep of deps) collectRecursive(dep)\<close> loop.
\<close>

function collectRecursive ::
    "(string, PackageInfo) js_map \<Rightarrow> string \<Rightarrow>
     string js_set \<times> (string, PackageInfo) js_map \<Rightarrow>
     string js_set \<times> (string, PackageInfo) js_map"
  and collectEach ::
    "(string, PackageInfo) js_map \<Rightarrow> string list \<Rightarrow>
     string js_set \<times> (string, PackageInfo) js_map \<Rightarrow>
     string js_set \<times> (string, PackageInfo) js_map" where
  "collectRecursive allPackages depName (visited, result) =
     (if depName \<in> set visited then (visited, result)
      else (case map_of allPackages depName of
              None \<Rightarrow> (set_add depName visited, result)
            | Some pkg \<Rightarrow>
                collectEach allPackages (workspaceDeps pkg)
                  (set_add depName visited, AList.update depName pkg result)))"
| "collectEach allPackages [] s = s"
| "collectEach allPackages (dep # deps) s =
     collectEach allPackages deps (collectRecursive allPackages dep s)"
  by pat_completeness auto

lemma collect_visited_mono:
  "collectRecursive_collectEach_dom (Inl (ap, n, s)) \<Longrightarrow>
     set (fst s) \<subseteq> set (fst (collectRecursive ap n s))"
  "collectRecursive_collectEach_dom (Inr (ap, ds, s)) \<Longrightarrow>
     set (fst s) \<subseteq> set (fst (collectEach ap ds s))"
proof (induction ap n s and ap ds s rule: collectRecursive_collectEach.pinduct)
  case (1 allPackages depName visited result)
  show ?case
  proof (cases "depName \<in> set visited")
    case True
    then show ?thesis using "1.hyps" by (simp add: collectRecursive.psimps)
  next
    case False
    show ?thesis
    proof (cases "map_of allPackages depName")
      case None
      then show ?thesis using False "1.hyps" by (auto simp: collectRecursive.psimps set_add_def)
    next
      case (Some pkg)
      from "1.IH"[OF False Some]
      have "set (set_add depName visited) \<subseteq>
            set (fst (collectEach allPackages (workspaceDeps pkg)
                        (set_add depName visited, AList.update depName pkg result)))" by simp
      then show ?thesis using False Some "1.hyps"
        by (auto simp: collectRecursive.psimps set_add_def)
    qed
  qed
next
  case (2 allPackages s)
  then show ?case by (simp add: collectEach.psimps)
next
  case (3 allPackages dep deps s)
  then show ?case by (auto simp: collectEach.psimps)
qed

termination collectRecursive
proof (relation "inv_image (less_than <*lex*> less_than)
    (\<lambda>x. case x of
       Inl (ap, n, s) \<Rightarrow> (card (set (keys ap) - set (fst s)), 0)
     | Inr (ap, ds, s) \<Rightarrow> (card (set (keys ap) - set (fst s)), Suc (length ds)))")
  show "wf (inv_image (less_than <*lex*> less_than)
    (\<lambda>x. case x of
       Inl (ap, n, s) \<Rightarrow> (card (set (keys ap) - set (fst s)), 0::nat)
     | Inr (ap, ds, s) \<Rightarrow> (card (set (keys ap) - set (fst s)), Suc (length ds))))"
    by (intro wf_inv_image wf_lex_prod wf_less_than)
next
  fix allPackages :: "(string, PackageInfo) js_map" and depName visited result pkg
  assume nv: "depName \<notin> set visited" and some: "map_of allPackages depName = Some pkg"
  from some have "depName \<in> set (keys allPackages)"
    by (auto simp: keys_def dest: map_of_SomeD intro: rev_image_eqI)
  then have "card (set (keys allPackages) - insert depName (set visited))
           < card (set (keys allPackages) - set visited)"
    using nv by (intro psubset_card_mono) auto
  then show "(Inr (allPackages, workspaceDeps pkg,
                   set_add depName visited, AList.update depName pkg result),
              Inl (allPackages, depName, visited, result))
        \<in> inv_image (less_than <*lex*> less_than)
    (\<lambda>x. case x of
       Inl (ap, n, s) \<Rightarrow> (card (set (keys ap) - set (fst s)), 0)
     | Inr (ap, ds, s) \<Rightarrow> (card (set (keys ap) - set (fst s)), Suc (length ds)))"
    using nv by (simp add: set_add_def)
next
  fix allPackages :: "(string, PackageInfo) js_map" and dep :: string and deps :: "string list"
    and s :: "string js_set \<times> (string, PackageInfo) js_map"
  show "(Inl (allPackages, dep, s), Inr (allPackages, dep # deps, s))
        \<in> inv_image (less_than <*lex*> less_than)
    (\<lambda>x. case x of
       Inl (ap, n, s) \<Rightarrow> (card (set (keys ap) - set (fst s)), 0)
     | Inr (ap, ds, s) \<Rightarrow> (card (set (keys ap) - set (fst s)), Suc (length ds)))"
    by simp
next
  fix allPackages :: "(string, PackageInfo) js_map" and dep :: string and deps :: "string list"
    and s :: "string js_set \<times> (string, PackageInfo) js_map"
  assume "collectRecursive_collectEach_dom (Inl (allPackages, dep, s))"
  from collect_visited_mono(1)[OF this]
  have "set (keys allPackages) - set (fst (collectRecursive allPackages dep s))
          \<subseteq> set (keys allPackages) - set (fst s)" by blast
  then have "card (set (keys allPackages) - set (fst (collectRecursive allPackages dep s)))
          \<le> card (set (keys allPackages) - set (fst s))"
    by (intro card_mono) auto
  then show "(Inr (allPackages, deps, collectRecursive allPackages dep s),
              Inr (allPackages, dep # deps, s))
        \<in> inv_image (less_than <*lex*> less_than)
    (\<lambda>x. case x of
       Inl (ap, n, s) \<Rightarrow> (card (set (keys ap) - set (fst s)), 0)
     | Inr (ap, ds, s) \<Rightarrow> (card (set (keys ap) - set (fst s)), Suc (length ds)))"
    by auto
qed

text \<open>
  \<open>collectDependencies\<close>.  Reading the package manifest and discovering the workspace
  members (\<open>findWorkspaceRoot\<close>, then \<open>discoverAllWorkspacePackages\<close>, which expands glob
  patterns on the file system) are the parameters \<open>parsePackageJson\<close> and \<open>discover\<close>.
\<close>

definition collectDependencies ::
  "(string \<Rightarrow> error + PackageJsonData) \<Rightarrow> (string \<Rightarrow> error + (string, PackageInfo) js_map) \<Rightarrow>
   string \<Rightarrow> error + (string, PackageInfo) js_map" where
  "collectDependencies parsePackageJson discover cwd =
     (case parsePackageJson cwd of
        Inl e \<Rightarrow> Inl e
      | Inr pj \<Rightarrow>
          (let wsDeps = extractWorkspaceDependencies pj in
           if wsDeps = [] then Inr []
           else (case discover cwd of
                   Inl e \<Rightarrow> Inl e
                 | Inr allPackages \<Rightarrow> Inr (snd (collectEach allPackages wsDeps ([], []))))))"


definition ws_rel :: "(string, PackageInfo) js_map \<Rightarrow> (string \<times> string) set" where
  "ws_rel ap = {(a, b). \<exists>pkg. map_of ap a = Some pkg \<and> b \<in> set (workspaceDeps pkg)}"

definition res_ok ::
  "(string, PackageInfo) js_map \<Rightarrow> string list \<Rightarrow> (string, PackageInfo) js_map \<Rightarrow> bool" where
  "res_ok ap v r \<longleftrightarrow>
     distinct (map fst r) \<and> (\<forall>m. map_of r m = (if m \<in> set v then map_of ap m else None))"

definition collect_post ::
  "(string, PackageInfo) js_map \<Rightarrow> string set \<Rightarrow>
   string list \<times> (string, PackageInfo) js_map \<Rightarrow>
   string list \<times> (string, PackageInfo) js_map \<Rightarrow> bool" where
  "collect_post ap starts s s' \<longleftrightarrow>
     set (fst s) \<subseteq> set (fst s') \<and> starts \<subseteq> set (fst s') \<and>
     (\<forall>m\<in>set (fst s') - set (fst s). \<exists>d\<in>starts. (d, m) \<in> (ws_rel ap)\<^sup>*) \<and>
     (\<forall>m\<in>set (fst s') - set (fst s). \<forall>b. (m, b) \<in> ws_rel ap \<longrightarrow> b \<in> set (fst s')) \<and>
     (res_ok ap (fst s) (snd s) \<longrightarrow> res_ok ap (fst s') (snd s'))"

lemma collect_postD:
  assumes "collect_post ap starts s s'"
  shows "set (fst s) \<subseteq> set (fst s')" "starts \<subseteq> set (fst s')"
    "\<And>m. m \<in> set (fst s') \<Longrightarrow> m \<notin> set (fst s) \<Longrightarrow> \<exists>d\<in>starts. (d, m) \<in> (ws_rel ap)\<^sup>*"
    "\<And>m b. m \<in> set (fst s') \<Longrightarrow> m \<notin> set (fst s) \<Longrightarrow> (m, b) \<in> ws_rel ap \<Longrightarrow> b \<in> set (fst s')"
    "res_ok ap (fst s) (snd s) \<Longrightarrow> res_ok ap (fst s') (snd s')"
  using assms unfolding collect_post_def by blast+

lemma collect_postI:
  assumes "set (fst s) \<subseteq> set (fst s')" "starts \<subseteq> set (fst s')"
    "\<And>m. m \<in> set (fst s') \<Longrightarrow> m \<notin> set (fst s) \<Longrightarrow> \<exists>d\<in>starts. (d, m) \<in> (ws_rel ap)\<^sup>*"
    "\<And>m b. m \<in> set (fst s') \<Longrightarrow> m \<notin> set (fst s) \<Longrightarrow> (m, b) \<in> ws_rel ap \<Longrightarrow> b \<in> set (fst s')"
    "res_ok ap (fst s) (snd s) \<Longrightarrow> res_ok ap (fst s') (snd s')"
  shows "collect_post ap starts s s'"
  using assms unfolding collect_post_def by blast

lemma res_ok_visit_missing:
  assumes "res_ok ap v r" "n \<notin> set v" "map_of ap n = None"
  shows "res_ok ap (set_add n v) r"
  using assms unfolding res_ok_def set_add_def by auto

lemma res_ok_visit_found:
  assumes "res_ok ap v r" "n \<notin> set v" "map_of ap n = Some pkg"
  shows "res_ok ap (set_add n v) (AList.update n pkg r)"
proof -
  have "distinct (map fst (AList.update n pkg r))"
    using assms(1) unfolding res_ok_def by (simp add: distinct_update)
  moreover have "\<forall>m. map_of (AList.update n pkg r) m =
      (if m \<in> set (set_add n v) then map_of ap m else None)"
    using assms unfolding res_ok_def set_add_def by (auto simp: update_conv')
  ultimately show ?thesis unfolding res_ok_def by blast
qed

lemma collect_correct:
  "collect_post ap {n} s (collectRecursive ap n s)"
  "collect_post ap (set ds) s (collectEach ap ds s)"
proof (induction ap n s and ap ds s rule: collectRecursive_collectEach.induct)
  case (1 allPackages depName visited result)
  show ?case
  proof (cases "depName \<in> set visited")
    case True
    then show ?thesis by (intro collect_postI) simp_all
  next
    case False
    show ?thesis
    proof (cases "map_of allPackages depName")
      case None
      have eq: "collectRecursive allPackages depName (visited, result)
                  = (set_add depName visited, result)"
        using False None by simp
      have no_succ: "\<And>b. (depName, b) \<notin> ws_rel allPackages"
        using None by (simp add: ws_rel_def)
      show ?thesis unfolding eq
      proof (intro collect_postI)
        show "set (fst (visited, result)) \<subseteq> set (fst (set_add depName visited, result))"
          by (auto simp: set_add_def)
        show "{depName} \<subseteq> set (fst (set_add depName visited, result))"
          by (auto simp: set_add_def)
      next
        fix m assume "m \<in> set (fst (set_add depName visited, result))"
          "m \<notin> set (fst (visited, result))"
        then have "m = depName" by (auto simp: set_add_def split: if_splits)
        then show "\<exists>d\<in>{depName}. (d, m) \<in> (ws_rel allPackages)\<^sup>*" by simp
      next
        fix m b assume "m \<in> set (fst (set_add depName visited, result))"
          "m \<notin> set (fst (visited, result))" "(m, b) \<in> ws_rel allPackages"
        then have "m = depName" by (auto simp: set_add_def split: if_splits)
        with no_succ \<open>(m, b) \<in> ws_rel allPackages\<close>
        show "b \<in> set (fst (set_add depName visited, result))" by simp
      next
        assume "res_ok allPackages (fst (visited, result)) (snd (visited, result))"
        then show "res_ok allPackages (fst (set_add depName visited, result))
                     (snd (set_add depName visited, result))"
          using res_ok_visit_missing[OF _ False None] by simp
      qed
    next
      case (Some pkg)
      let ?s1 = "(set_add depName visited, AList.update depName pkg result)"
      let ?s' = "collectEach allPackages (workspaceDeps pkg) ?s1"
      have eq: "collectRecursive allPackages depName (visited, result) = ?s'"
        using False Some by simp
      note ih = collect_postD[OF "1.IH"[OF False Some]]
      have v1: "set (fst ?s1) = insert depName (set visited)" by (auto simp: set_add_def)
      have succ: "\<And>b. (depName, b) \<in> ws_rel allPackages \<longleftrightarrow> b \<in> set (workspaceDeps pkg)"
        using Some by (simp add: ws_rel_def)
      show ?thesis unfolding eq
      proof (intro collect_postI)
        show "set (fst (visited, result)) \<subseteq> set (fst ?s')" using ih(1) v1 by auto
        show "{depName} \<subseteq> set (fst ?s')" using ih(1) v1 by auto
      next
        fix m assume m: "m \<in> set (fst ?s')" "m \<notin> set (fst (visited, result))"
        show "\<exists>d\<in>{depName}. (d, m) \<in> (ws_rel allPackages)\<^sup>*"
        proof (cases "m = depName")
          case True then show ?thesis by simp
        next
          case False
          with m v1 have "m \<notin> set (fst ?s1)" by simp
          from ih(3)[OF m(1) this] obtain d where d: "d \<in> set (workspaceDeps pkg)"
            "(d, m) \<in> (ws_rel allPackages)\<^sup>*" by blast
          from d(1) succ have "(depName, d) \<in> ws_rel allPackages" by simp
          from this d(2) have "(depName, m) \<in> (ws_rel allPackages)\<^sup>*"
            by (rule converse_rtrancl_into_rtrancl)
          then show ?thesis by simp
        qed
      next
        fix m b assume m: "m \<in> set (fst ?s')" "m \<notin> set (fst (visited, result))"
          and mb: "(m, b) \<in> ws_rel allPackages"
        show "b \<in> set (fst ?s')"
        proof (cases "m = depName")
          case True
          with mb succ have "b \<in> set (workspaceDeps pkg)" by simp
          with ih(2) show ?thesis by blast
        next
          case False
          with m v1 have "m \<notin> set (fst ?s1)" by simp
          from ih(4)[OF m(1) this mb] show ?thesis .
        qed
      next
        assume "res_ok allPackages (fst (visited, result)) (snd (visited, result))"
        then have "res_ok allPackages (fst ?s1) (snd ?s1)"
          using res_ok_visit_found[OF _ False Some] by simp
        from ih(5)[OF this] show "res_ok allPackages (fst ?s') (snd ?s')" .
      qed
    qed
  qed
next
  case (2 allPackages s)
  show ?case by (intro collect_postI) simp_all
next
  case (3 allPackages dep deps s)
  let ?s1 = "collectRecursive allPackages dep s"
  let ?s' = "collectEach allPackages deps ?s1"
  note a = collect_postD[OF "3.IH"(1)]
  note b = collect_postD[OF "3.IH"(2)]
  have eq: "collectEach allPackages (dep # deps) s = ?s'" by simp
  show ?case unfolding eq
  proof (intro collect_postI)
    show "set (fst s) \<subseteq> set (fst ?s')" using a(1) b(1) by blast
    show "set (dep # deps) \<subseteq> set (fst ?s')" using a(2) b(1) b(2) by auto
  next
    fix m assume m: "m \<in> set (fst ?s')" "m \<notin> set (fst s)"
    show "\<exists>d\<in>set (dep # deps). (d, m) \<in> (ws_rel allPackages)\<^sup>*"
    proof (cases "m \<in> set (fst ?s1)")
      case True
      from a(3)[OF True m(2)] show ?thesis by simp
    next
      case False
      from b(3)[OF m(1) False] show ?thesis by auto
    qed
  next
    fix m c assume m: "m \<in> set (fst ?s')" "m \<notin> set (fst s)"
      and mc: "(m, c) \<in> ws_rel allPackages"
    show "c \<in> set (fst ?s')"
    proof (cases "m \<in> set (fst ?s1)")
      case True
      from a(4)[OF True m(2) mc] b(1) show ?thesis by blast
    next
      case False
      from b(4)[OF m(1) False mc] show ?thesis .
    qed
  next
    assume "res_ok allPackages (fst s) (snd s)"
    from b(5)[OF a(5)[OF this]] show "res_ok allPackages (fst ?s') (snd ?s')" .
  qed
qed


lemma res_ok_empty: "res_ok ap [] []"
  by (simp add: res_ok_def)

lemma collectEach_visited:
  "set (fst (collectEach ap ds ([], []))) = (ws_rel ap)\<^sup>* `` set ds"
proof -
  let ?s' = "collectEach ap ds ([], [])"
  note p = collect_postD[OF collect_correct(2)[of ap ds "([], [])"]]
  show ?thesis
  proof (intro equalityI subsetI)
    fix m assume "m \<in> set (fst ?s')"
    from p(3)[OF this] show "m \<in> (ws_rel ap)\<^sup>* `` set ds" by auto
  next
    fix m assume "m \<in> (ws_rel ap)\<^sup>* `` set ds"
    then obtain d where d: "d \<in> set ds" "(d, m) \<in> (ws_rel ap)\<^sup>*" by blast
    from d(2) show "m \<in> set (fst ?s')"
    proof (induction rule: rtrancl_induct)
      case base
      then show ?case using p(2) d(1) by blast
    next
      case (step y z)
      from p(4)[OF step.IH _ step.hyps(2)] show ?case by simp
    qed
  qed
qed

lemma collectEach_result:
  "res_ok ap (fst (collectEach ap ds ([], []))) (snd (collectEach ap ds ([], [])))"
  using collect_postD(5)[OF collect_correct(2)[of ap ds "([], [])"]] res_ok_empty by simp

lemma collectEach_keys:
  fixes ap ds
  defines "col \<equiv> snd (collectEach ap ds ([], []))"
  shows "is_Map col"
    "set (keys col) = {m. has ap m \<and> (\<exists>d\<in>set ds. (d, m) \<in> (ws_rel ap)\<^sup>*)}"
    "\<And>m. m \<in> set (keys col) \<Longrightarrow> map_of col m = map_of ap m"
proof -
  let ?V = "set (fst (collectEach ap ds ([], [])))"
  have ok: "distinct (map fst col)" "\<And>m. map_of col m = (if m \<in> ?V then map_of ap m else None)"
    using collectEach_result[of ap ds] unfolding res_ok_def col_def by simp_all
  show "is_Map col" using ok(1) by (simp add: is_Map_def)
  have k: "\<And>m. m \<in> set (keys col) \<longleftrightarrow> map_of col m \<noteq> None"
    by (simp add: keys_def map_of_eq_None_iff)
  have V: "\<And>m. m \<in> ?V \<longleftrightarrow> (\<exists>d\<in>set ds. (d, m) \<in> (ws_rel ap)\<^sup>*)"
    unfolding collectEach_visited by blast
  show "set (keys col) = {m. has ap m \<and> (\<exists>d\<in>set ds. (d, m) \<in> (ws_rel ap)\<^sup>*)}"
  proof (intro equalityI subsetI)
    fix m assume "m \<in> set (keys col)"
    then have "map_of col m \<noteq> None" by (simp add: k)
    then have "m \<in> ?V" "map_of ap m \<noteq> None" using ok(2)[of m] by (auto split: if_splits)
    then show "m \<in> {m. has ap m \<and> (\<exists>d\<in>set ds. (d, m) \<in> (ws_rel ap)\<^sup>*)}"
      using V by (simp add: has_map_of)
  next
    fix m assume "m \<in> {m. has ap m \<and> (\<exists>d\<in>set ds. (d, m) \<in> (ws_rel ap)\<^sup>*)}"
    then have "m \<in> ?V" "map_of ap m \<noteq> None" using V by (simp_all add: has_map_of)
    then have "map_of col m \<noteq> None" using ok(2)[of m] by simp
    then show "m \<in> set (keys col)" by (simp add: k)
  qed
  show "\<And>m. m \<in> set (keys col) \<Longrightarrow> map_of col m = map_of ap m"
  proof -
    fix m assume "m \<in> set (keys col)"
    then have "map_of col m \<noteq> None" by (simp add: k)
    then show "map_of col m = map_of ap m" using ok(2)[of m] by (auto split: if_splits)
  qed
qed

lemma collectDependencies_closure:
  assumes p: "parsePackageJson cwd = Inr pj" and d: "discover cwd = Inr ap"
  shows "\<exists>col. collectDependencies parsePackageJson discover cwd = Inr col \<and> is_Map col \<and>
     set (keys col) =
       {m. has ap m \<and> (\<exists>d\<in>set (extractWorkspaceDependencies pj). (d, m) \<in> (ws_rel ap)\<^sup>*)} \<and>
     (\<forall>m\<in>set (keys col). map_of col m = map_of ap m)"
proof (cases "extractWorkspaceDependencies pj = []")
  case True
  then have "collectDependencies parsePackageJson discover cwd = Inr []"
    using p by (simp add: collectDependencies_def)
  then show ?thesis using True by (simp add: is_Map_def keys_def)
next
  case False
  let ?col = "snd (collectEach ap (extractWorkspaceDependencies pj) ([], []))"
  have "collectDependencies parsePackageJson discover cwd = Inr ?col"
    using p d False by (simp add: collectDependencies_def)
  moreover note collectEach_keys[where ap = ap and ds = "extractWorkspaceDependencies pj"]
  ultimately show ?thesis by blast
qed


lemma topologicalSort_acyclic:
  assumes wf: "wf_graph g" and ac: "acyclic (dep_rel g)"
  shows "\<exists>srt. topologicalSort g = Inr srt"
proof -
  from kahn_result_post[OF wf] obtain r where r: "kahn_result g = Inr r" and post: "kahn_post g r"
    by blast
  have dk: "distinct (keys (nodes g))" using wf unfolding wf_graph_def is_Map_def keys_def by simp
  have dr: "distinct r" using post unfolding kahn_post_def by blast
  from kahn_post_acyclic_all[OF wf post ac] have "set r = set (keys (nodes g))" .
  then have "length r = length (keys (nodes g))" using dr dk by (metis distinct_card)
  then show ?thesis using r by (simp add: topologicalSort_def)
qed

lemma acyclic_by_rank:
  assumes "\<And>a b. (a, b) \<in> r \<Longrightarrow> f b < (f a :: nat)"
  shows "acyclic r"
proof -
  have "r\<inverse> \<subseteq> measure f" using assms by auto
  then have "wf (r\<inverse>)" by (rule wf_subset[OF wf_measure])
  then have "acyclic (r\<inverse>)" by (rule wf_acyclic)
  then show ?thesis by (simp add: acyclic_converse)
qed

lemma count_key:
  "distinct (map fst xs) \<Longrightarrow> k \<in> fst ` set xs \<Longrightarrow> length (filter (\<lambda>(n, _). n = k) xs) = 1"
proof (induction xs)
  case Nil
  then show ?case by simp
next
  case (Cons x xs)
  obtain a b where x: "x = (a, b)" by (cases x)
  show ?case
  proof (cases "a = k")
    case True
    then have "k \<notin> fst ` set xs" using Cons.prems(1) x by simp
    then have "filter (\<lambda>(n, _). n = k) xs = []" by (force simp: filter_empty_conv)
    then show ?thesis using True x by simp
  next
    case False
    then show ?thesis using Cons x by auto
  qed
qed

lemma buildDependencyGraph_deps_of_map:
  assumes m: "is_Map P"
  shows "set (deps_of (buildDependencyGraph P) n) =
     (case map_of P n of None \<Rightarrow> {} | Some pkg \<Rightarrow> {d \<in> set (workspaceDeps pkg). has P d})"
proof -
  have iff: "\<And>pkg. (n, pkg) \<in> set P \<longleftrightarrow> map_of P n = Some pkg"
    using m by (simp add: is_Map_def)
  show ?thesis unfolding buildDependencyGraph_deps_of(1) iff
    by (cases "map_of P n") auto
qed

lemma diamond:
  assumes parse: "parsePackageJson cwd = Inr pj" and disc: "discover cwd = Inr ap"
    and ne: "B \<noteq> C" "B \<noteq> D" "C \<noteq> D"
    and start: "set (extractWorkspaceDependencies pj) = {B, C}"
    and b: "map_of ap B = Some pb" "set (workspaceDeps pb) = {D}"
    and c: "map_of ap C = Some pc" "set (workspaceDeps pc) = {D}"
    and d: "map_of ap D = Some pd" "workspaceDeps pd = []"
  shows "\<exists>col srt layers.
           collectDependencies parsePackageJson discover cwd = Inr col \<and>
           set (keys col) = {B, C, D} \<and> length (filter (\<lambda>(n, _). n = D) col) = 1 \<and>
           topologicalSort (buildDependencyGraph col) = Inr srt \<and>
           getBuildLayers srt (buildDependencyGraph col) = Inr layers \<and>
           layer_index layers D = Some 0 \<and> layer_index layers B = Some 1 \<and>
           layer_index layers C = Some 1"
proof -
  let ?R = "ws_rel ap"
  have rB: "\<And>x. (B, x) \<in> ?R \<longleftrightarrow> x = D" using b by (auto simp: ws_rel_def)
  have rC: "\<And>x. (C, x) \<in> ?R \<longleftrightarrow> x = D" using c by (auto simp: ws_rel_def)
  have rD: "\<And>x. (D, x) \<notin> ?R" using d by (auto simp: ws_rel_def)
  have reach: "m \<in> {B, C, D}" if "s \<in> {B, C}" "(s, m) \<in> ?R\<^sup>*" for s m
    using that(2)
  proof (induction rule: rtrancl_induct)
    case base
    then show ?case using that(1) by auto
  next
    case (step y z)
    then show ?case using rB rC rD by auto
  qed
  from collectDependencies_closure[where parsePackageJson = parsePackageJson
      and discover = discover and cwd = cwd, OF parse disc]
  obtain col where c0: "collectDependencies parsePackageJson discover cwd = Inr col \<and>
     is_Map col \<and>
     set (keys col) =
       {m. has ap m \<and> (\<exists>d\<in>set (extractWorkspaceDependencies pj). (d, m) \<in> (ws_rel ap)\<^sup>*)} \<and>
     (\<forall>m\<in>set (keys col). map_of col m = map_of ap m)" by (rule exE)
  note col = c0[THEN conjunct1] and m = c0[THEN conjunct2, THEN conjunct1]
    and k = c0[THEN conjunct2, THEN conjunct2, THEN conjunct1, unfolded start]
    and same = c0[THEN conjunct2, THEN conjunct2, THEN conjunct2, rule_format]
  have hasB: "has ap B" and hasC: "has ap C" and hasD: "has ap D"
    using b c d by (simp_all add: has_map_of)
  have bd: "(B, D) \<in> ?R\<^sup>*" using rB by auto
  have keys: "set (keys col) = {B, C, D}"
  proof (intro equalityI subsetI)
    fix x assume "x \<in> set (keys col)"
    then obtain s where "s \<in> {B, C}" "(s, x) \<in> ?R\<^sup>*" unfolding k by blast
    then show "x \<in> {B, C, D}" by (rule reach)
  next
    fix x assume "x \<in> {B, C, D}"
    then consider "x = B" | "x = C" | "x = D" by blast
    then show "x \<in> set (keys col)"
    proof cases
      case 1
      have "has ap B \<and> (\<exists>s\<in>{B, C}. (s, B) \<in> ?R\<^sup>*)" using hasB by blast
      then show ?thesis unfolding k 1 by simp
    next
      case 2
      have "has ap C \<and> (\<exists>s\<in>{B, C}. (s, C) \<in> ?R\<^sup>*)" using hasC by blast
      then show ?thesis unfolding k 2 by simp
    next
      case 3
      have "has ap D \<and> (\<exists>s\<in>{B, C}. (s, D) \<in> ?R\<^sup>*)" using hasD bd by blast
      then show ?thesis unfolding k 3 by simp
    qed
  qed
  have cnt: "length (filter (\<lambda>(n, _). n = D) col) = 1"
  proof (rule count_key)
    show "distinct (map fst col)" using m by (simp add: is_Map_def)
    show "D \<in> fst ` set col" using keys by (auto simp: keys_def)
  qed
  let ?g = "buildDependencyGraph col"
  have wf: "wf_graph ?g" by (rule buildDependencyGraph_wf[OF m])
  have hcol: "has col D" using keys by (simp add: has_def)
  have mB: "map_of col B = Some pb" and mC: "map_of col C = Some pc"
    and mD: "map_of col D = Some pd"
    using same keys b c d by simp_all
  have dB: "set (deps_of ?g B) = {D}"
    using mB b hcol by (auto simp: buildDependencyGraph_deps_of_map[OF m])
  have dC: "set (deps_of ?g C) = {D}"
    using mC c hcol by (auto simp: buildDependencyGraph_deps_of_map[OF m])
  have "set (deps_of ?g D) = {}"
    using mD d by (simp add: buildDependencyGraph_deps_of_map[OF m])
  then have dD: "deps_of ?g D = []" by simp
  have dother: "set (deps_of ?g n) = {}" if "n \<notin> {B, C, D}" for n
  proof -
    from that keys have "\<not> has col n" by (simp add: has_def)
    then have "map_of col n = None" by (simp add: has_map_of)
    then show ?thesis by (simp add: buildDependencyGraph_deps_of_map[OF m])
  qed
  have rel: "\<And>x y. (x, y) \<in> dep_rel ?g \<Longrightarrow> y = D \<and> x \<noteq> D"
  proof -
    fix x y assume "(x, y) \<in> dep_rel ?g"
    then have y: "y \<in> set (deps_of ?g x)" by (simp add: dep_rel_def)
    show "y = D \<and> x \<noteq> D"
    proof (cases "x \<in> {B, C, D}")
      case True
      then consider "x = B" | "x = C" | "x = D" by blast
      then show ?thesis
      proof cases
        case 1
        with y have "y \<in> set (deps_of ?g B)" by simp
        then have "y = D" unfolding dB by simp
        then show ?thesis using 1 ne by simp
      next
        case 2
        with y have "y \<in> set (deps_of ?g C)" by simp
        then have "y = D" unfolding dC by simp
        then show ?thesis using 2 ne by simp
      next
        case 3
        with y have "y \<in> set (deps_of ?g D)" by simp
        then show ?thesis unfolding dD by simp
      qed
    next
      case False
      from dother[OF this] y show ?thesis by simp
    qed
  qed
  have ac: "acyclic (dep_rel ?g)"
    by (rule acyclic_by_rank[where f = "\<lambda>n. if n = D then 0 else 1"]) (use rel in auto)
  from topologicalSort_acyclic[OF wf ac] obtain srt where srt: "topologicalSort ?g = Inr srt"
    by blast
  from getBuildLayers_sorted[OF wf srt]
  obtain layers where L: "getBuildLayers srt ?g = Inr layers"
    and idx: "\<forall>p\<in>set (keys (nodes ?g)).
        layer_index layers p =
          Some (if deps_of ?g p = [] then 0
                else 1 + Max {k. \<exists>d\<in>set (deps_of ?g p). layer_index layers d = Some k})"
    by blast
  have nk: "set (keys (nodes ?g)) = {B, C, D}" using keys by (simp add: buildDependencyGraph_keys)
  have inB: "B \<in> set (keys (nodes ?g))" and inC: "C \<in> set (keys (nodes ?g))"
    and inD: "D \<in> set (keys (nodes ?g))" unfolding nk by simp_all
  have iD: "layer_index layers D = Some 0" using idx[rule_format, OF inD] dD by simp
  have one: "{k. layer_index layers D = Some k} = {0}" using iD by auto
  have neB: "deps_of ?g B \<noteq> []" and neC: "deps_of ?g C \<noteq> []" using dB dC by auto
  have iB: "layer_index layers B = Some 1"
    using idx[rule_format, OF inB] neB by (simp add: dB one)
  have iC: "layer_index layers C = Some 1"
    using idx[rule_format, OF inC] neC by (simp add: dC one)
  show ?thesis by (intro exI[of _ col] exI[of _ srt] exI[of _ layers] conjI col keys cnt srt L iD iB iC)
qed


definition diamond_ws :: "(string, PackageInfo) js_map" where
  "diamond_ws = [(''a'', createPackage ''a'' [''b'', ''c'']),
                 (''b'', createPackage ''b'' [''d'']),
                 (''c'', createPackage ''c'' [''d'']),
                 (''d'', createPackage ''d'' []),
                 (''e'', createPackage ''e'' [''d''])]"

definition a_json :: PackageJsonData where
  "a_json = \<lparr>pj_name = Some ''a'', scripts = [(''build'', ''tsc'')],
              dependencies = [(''b'', ''workspace:*''), (''lodash'', ''^4.0.0'')],
              devDependencies = [(''c'', ''workspace:^1.0.0'')]\<rparr>"

definition d_json :: PackageJsonData where
  "d_json = \<lparr>pj_name = Some ''d'', scripts = [(''build'', ''tsc'')],
              dependencies = [(''lodash'', ''^4.0.0'')], devDependencies = []\<rparr>"

definition pkg_a_json :: PackageJsonData where
  "pkg_a_json = \<lparr>pj_name = Some ''pkg-a'', scripts = [(''build'', ''tsc'')],
                  dependencies = [(''pkg-b'', ''workspace:*'')], devDependencies = []\<rparr>"

definition parse_ws :: "string \<Rightarrow> error + PackageJsonData" where
  "parse_ws cwd =
     (if cwd = ''/ws/a'' then Inr a_json
      else if cwd = ''/ws/d'' then Inr d_json
      else if cwd = ''/ws/pkg-a'' then Inr pkg_a_json
      else Inl IOError)"

definition discover_diamond :: "string \<Rightarrow> error + (string, PackageInfo) js_map" where
  "discover_diamond cwd = Inr diamond_ws"

definition discover_cycle :: "string \<Rightarrow> error + (string, PackageInfo) js_map" where
  "discover_cycle cwd = Inr cycle_pkgs"


lemma a_json_deps: "extractWorkspaceDependencies a_json = [''b'', ''c'']"
  by (simp add: extractWorkspaceDependencies_def a_json_def startsWith_def
        Object_entries_def is_index_def)

lemma d_json_deps: "extractWorkspaceDependencies d_json = []"
  by (simp add: extractWorkspaceDependencies_def d_json_def startsWith_def
        Object_entries_def is_index_def)

lemma pkg_a_json_deps: "extractWorkspaceDependencies pkg_a_json = [''pkg-b'']"
  by (simp add: extractWorkspaceDependencies_def pkg_a_json_def startsWith_def
        Object_entries_def is_index_def)

lemma collect_diamond:
  "collectDependencies parse_ws discover_diamond ''/ws/a'' =
     Inr [(''b'', createPackage ''b'' [''d'']), (''d'', createPackage ''d'' []),
          (''c'', createPackage ''c'' [''d''])]"
  by (simp add: collectDependencies_def parse_ws_def discover_diamond_def a_json_deps
        diamond_ws_def set_add_def createPackage_def)

lemma collect_cycle:
  "collectDependencies parse_ws discover_cycle ''/ws/pkg-a'' =
     Inr [(''pkg-b'', createPackage ''pkg-b'' [''pkg-a'']),
          (''pkg-a'', createPackage ''pkg-a'' [''pkg-b''])]"
  by (simp add: collectDependencies_def parse_ws_def discover_cycle_def pkg_a_json_deps
        cycle_pkgs_def set_add_def createPackage_def)


text \<open>
  C8.  collectDependencies returns each collected package once, and the collected packages
  are exactly the workspace members that can be reached from the declared workspace
  dependencies of the starting package along declared workspace dependencies, each with
  its own record (the transitive closure, not the whole workspace).  For a diamond (the
  starting package depends on B and C, B and C each depend on D), whatever the order of the
  dependency lists and of the workspace, D is collected exactly once, and layering the
  collected packages puts D in layer 0 and B and C in layer 1.
\<close>

theorem collectDependencies_closure_diamond:
  assumes "parsePackageJson cwd = Inr pj" and "discover cwd = Inr ap"
  shows "(\<exists>col. collectDependencies parsePackageJson discover cwd = Inr col \<and> is_Map col \<and>
            set (keys col) =
              {m. has ap m \<and>
                  (\<exists>d\<in>set (extractWorkspaceDependencies pj). (d, m) \<in> (ws_rel ap)\<^sup>*)} \<and>
            (\<forall>m\<in>set (keys col). map_of col m = map_of ap m)) \<and>
         (B \<noteq> C \<and> B \<noteq> D \<and> C \<noteq> D \<and> set (extractWorkspaceDependencies pj) = {B, C} \<and>
          map_of ap B = Some pb \<and> set (workspaceDeps pb) = {D} \<and>
          map_of ap C = Some pc \<and> set (workspaceDeps pc) = {D} \<and>
          map_of ap D = Some pd \<and> workspaceDeps pd = [] \<longrightarrow>
          (\<exists>col srt layers.
             collectDependencies parsePackageJson discover cwd = Inr col \<and>
             set (keys col) = {B, C, D} \<and> length (filter (\<lambda>(n, _). n = D) col) = 1 \<and>
             topologicalSort (buildDependencyGraph col) = Inr srt \<and>
             getBuildLayers srt (buildDependencyGraph col) = Inr layers \<and>
             layer_index layers D = Some 0 \<and> layer_index layers B = Some 1 \<and>
             layer_index layers C = Some 1))"
proof (intro conjI impI)
  show "\<exists>col. collectDependencies parsePackageJson discover cwd = Inr col \<and> is_Map col \<and>
            set (keys col) =
              {m. has ap m \<and>
                  (\<exists>d\<in>set (extractWorkspaceDependencies pj). (d, m) \<in> (ws_rel ap)\<^sup>*)} \<and>
            (\<forall>m\<in>set (keys col). map_of col m = map_of ap m)"
    by (rule collectDependencies_closure[where parsePackageJson = parsePackageJson
          and discover = discover and cwd = cwd, OF assms])
next
  assume h: "B \<noteq> C \<and> B \<noteq> D \<and> C \<noteq> D \<and> set (extractWorkspaceDependencies pj) = {B, C} \<and>
          map_of ap B = Some pb \<and> set (workspaceDeps pb) = {D} \<and>
          map_of ap C = Some pc \<and> set (workspaceDeps pc) = {D} \<and>
          map_of ap D = Some pd \<and> workspaceDeps pd = []"
  show "\<exists>col srt layers.
             collectDependencies parsePackageJson discover cwd = Inr col \<and>
             set (keys col) = {B, C, D} \<and> length (filter (\<lambda>(n, _). n = D) col) = 1 \<and>
             topologicalSort (buildDependencyGraph col) = Inr srt \<and>
             getBuildLayers srt (buildDependencyGraph col) = Inr layers \<and>
             layer_index layers D = Some 0 \<and> layer_index layers B = Some 1 \<and>
             layer_index layers C = Some 1"
    by (rule diamond[where parsePackageJson = parsePackageJson and discover = discover
          and cwd = cwd and pj = pj and ap = ap and pb = pb and pc = pc and pd = pd,
          OF assms]) (use h in simp_all)
qed

theorem collectDependencies_closure_diamond_witness:
  "parse_ws ''/ws/a'' = Inr a_json \<and> discover_diamond ''/ws/a'' = Inr diamond_ws \<and>
   ''b'' \<noteq> ''c'' \<and> ''b'' \<noteq> ''d'' \<and> ''c'' \<noteq> ''d'' \<and>
   set (extractWorkspaceDependencies a_json) = {''b'', ''c''} \<and>
   map_of diamond_ws ''b'' = Some (createPackage ''b'' [''d'']) \<and>
   map_of diamond_ws ''c'' = Some (createPackage ''c'' [''d'']) \<and>
   map_of diamond_ws ''d'' = Some (createPackage ''d'' []) \<and>
   (\<exists>col srt layers.
      collectDependencies parse_ws discover_diamond ''/ws/a'' = Inr col \<and>
      set (keys col) = {''b'', ''c'', ''d''} \<and> length (filter (\<lambda>(n, _). n = ''d'') col) = 1 \<and>
      topologicalSort (buildDependencyGraph col) = Inr srt \<and>
      getBuildLayers srt (buildDependencyGraph col) = Inr layers \<and>
      layer_index layers ''d'' = Some 0 \<and> layer_index layers ''b'' = Some 1 \<and>
      layer_index layers ''c'' = Some 1) \<and>
   (\<exists>col. collectDependencies parse_ws discover_diamond ''/ws/a'' = Inr col \<and> is_Map col \<and>
      set (keys col) =
        {m. has diamond_ws m \<and>
            (\<exists>d\<in>set (extractWorkspaceDependencies a_json). (d, m) \<in> (ws_rel diamond_ws)\<^sup>*)} \<and>
      (\<forall>m\<in>set (keys col). map_of col m = map_of diamond_ws m))"
proof -
  have p: "parse_ws ''/ws/a'' = Inr a_json" by (simp add: parse_ws_def)
  have d: "discover_diamond ''/ws/a'' = Inr diamond_ws" by (simp add: discover_diamond_def)
  have n: "''b'' \<noteq> ''c''" "''b'' \<noteq> ''d''" "''c'' \<noteq> ''d''" by simp_all
  have s: "set (extractWorkspaceDependencies a_json) = {''b'', ''c''}" by (simp add: a_json_deps)
  have m: "map_of diamond_ws ''b'' = Some (createPackage ''b'' [''d''])"
    "map_of diamond_ws ''c'' = Some (createPackage ''c'' [''d''])"
    "map_of diamond_ws ''d'' = Some (createPackage ''d'' [])"
    by (simp_all add: diamond_ws_def)
  have w: "set (workspaceDeps (createPackage ''b'' [''d''])) = {''d''}"
    "set (workspaceDeps (createPackage ''c'' [''d''])) = {''d''}"
    "workspaceDeps (createPackage ''d'' []) = []"
    by (simp_all add: createPackage_def)
  have h: "''b'' \<noteq> ''c'' \<and> ''b'' \<noteq> ''d'' \<and> ''c'' \<noteq> ''d'' \<and>
      set (extractWorkspaceDependencies a_json) = {''b'', ''c''} \<and>
      map_of diamond_ws ''b'' = Some (createPackage ''b'' [''d'']) \<and>
      set (workspaceDeps (createPackage ''b'' [''d''])) = {''d''} \<and>
      map_of diamond_ws ''c'' = Some (createPackage ''c'' [''d'']) \<and>
      set (workspaceDeps (createPackage ''c'' [''d''])) = {''d''} \<and>
      map_of diamond_ws ''d'' = Some (createPackage ''d'' []) \<and>
      workspaceDeps (createPackage ''d'' []) = []"
    by (intro conjI n s m w)
  note t = collectDependencies_closure_diamond[where parsePackageJson = parse_ws
      and discover = discover_diamond and cwd = "''/ws/a''" and pj = a_json and ap = diamond_ws
      and B = "''b''" and C = "''c''" and D = "''d''"
      and pb = "createPackage ''b'' [''d'']" and pc = "createPackage ''c'' [''d'']"
      and pd = "createPackage ''d'' []", OF p d]
  note t1 = t[THEN conjunct1] and t2 = t[THEN conjunct2, THEN mp, OF h]
  show ?thesis by (intro conjI p d n s m t1 t2)
qed

text \<open>
  C10 as stated fails on a dependency cycle through the starting package: pkg-a depends on
  pkg-b and pkg-b on pkg-a, and collecting from pkg-a returns pkg-a as a key.
\<close>

theorem collectDependencies_start_counterexample:
  "collectDependencies parse_ws discover_cycle ''/ws/pkg-a'' =
     Inr [(''pkg-b'', createPackage ''pkg-b'' [''pkg-a'']),
          (''pkg-a'', createPackage ''pkg-a'' [''pkg-b''])] \<and>
   currentName pkg_a_json ''/ws/pkg-a'' = ''pkg-a'' \<and>
   has [(''pkg-b'', createPackage ''pkg-b'' [''pkg-a'']),
        (''pkg-a'', createPackage ''pkg-a'' [''pkg-b''])] (currentName pkg_a_json ''/ws/pkg-a'')"
  by (simp add: collect_cycle currentName_def pkg_a_json_def has_def keys_def)

text \<open>
  C10, as amended.  When the starting package declares zero workspace dependencies the
  result is the empty mapping, whatever the workspace holds.  Otherwise the result has the
  starting package's own name as a key exactly when that name is a workspace member that
  can be reached from one of the declared workspace dependencies of the starting package
  along declared workspace dependencies.
\<close>

theorem collectDependencies_start_package:
  assumes "parsePackageJson cwd = Inr pj"
  shows "(extractWorkspaceDependencies pj = [] \<longrightarrow>
            collectDependencies parsePackageJson discover cwd = Inr []) \<and>
         (discover cwd = Inr ap \<longrightarrow>
            (\<exists>col. collectDependencies parsePackageJson discover cwd = Inr col \<and>
               (currentName pj cwd \<in> set (keys col) \<longleftrightarrow>
                  has ap (currentName pj cwd) \<and>
                  (\<exists>d\<in>set (extractWorkspaceDependencies pj).
                      (d, currentName pj cwd) \<in> (ws_rel ap)\<^sup>*))))"
proof (intro conjI impI)
  assume "extractWorkspaceDependencies pj = []"
  then show "collectDependencies parsePackageJson discover cwd = Inr []"
    using assms by (simp add: collectDependencies_def)
next
  assume d: "discover cwd = Inr ap"
  from collectDependencies_closure[where parsePackageJson = parsePackageJson
      and discover = discover and cwd = cwd, OF assms d]
  obtain col where c0: "collectDependencies parsePackageJson discover cwd = Inr col \<and>
     is_Map col \<and>
     set (keys col) =
       {m. has ap m \<and> (\<exists>d\<in>set (extractWorkspaceDependencies pj). (d, m) \<in> (ws_rel ap)\<^sup>*)} \<and>
     (\<forall>m\<in>set (keys col). map_of col m = map_of ap m)" by (rule exE)
  note col = c0[THEN conjunct1] and k = c0[THEN conjunct2, THEN conjunct2, THEN conjunct1]
  have "currentName pj cwd \<in> set (keys col) \<longleftrightarrow>
          has ap (currentName pj cwd) \<and>
          (\<exists>d\<in>set (extractWorkspaceDependencies pj). (d, currentName pj cwd) \<in> (ws_rel ap)\<^sup>*)"
    unfolding k by simp
  with col show "\<exists>col. collectDependencies parsePackageJson discover cwd = Inr col \<and>
               (currentName pj cwd \<in> set (keys col) \<longleftrightarrow>
                  has ap (currentName pj cwd) \<and>
                  (\<exists>d\<in>set (extractWorkspaceDependencies pj).
                      (d, currentName pj cwd) \<in> (ws_rel ap)\<^sup>*))" by blast
qed

theorem collectDependencies_start_package_witness:
  "parse_ws ''/ws/d'' = Inr d_json \<and> extractWorkspaceDependencies d_json = [] \<and>
   collectDependencies parse_ws discover_diamond ''/ws/d'' = Inr [] \<and>
   (''b'', ''d'') \<in> ws_rel diamond_ws \<and>
   parse_ws ''/ws/pkg-a'' = Inr pkg_a_json \<and> discover_cycle ''/ws/pkg-a'' = Inr cycle_pkgs \<and>
   (\<exists>col. collectDependencies parse_ws discover_cycle ''/ws/pkg-a'' = Inr col \<and>
      (currentName pkg_a_json ''/ws/pkg-a'' \<in> set (keys col) \<longleftrightarrow>
         has cycle_pkgs (currentName pkg_a_json ''/ws/pkg-a'') \<and>
         (\<exists>d\<in>set (extractWorkspaceDependencies pkg_a_json).
             (d, currentName pkg_a_json ''/ws/pkg-a'') \<in> (ws_rel cycle_pkgs)\<^sup>*)))"
proof -
  have p1: "parse_ws ''/ws/d'' = Inr d_json" by (simp add: parse_ws_def)
  have p2: "parse_ws ''/ws/pkg-a'' = Inr pkg_a_json" by (simp add: parse_ws_def)
  have dc: "discover_cycle ''/ws/pkg-a'' = Inr cycle_pkgs" by (simp add: discover_cycle_def)
  have r: "(''b'', ''d'') \<in> ws_rel diamond_ws"
    by (simp add: ws_rel_def diamond_ws_def createPackage_def)
  note a = collectDependencies_start_package[where parsePackageJson = parse_ws
      and discover = discover_diamond and cwd = "''/ws/d''" and pj = d_json, OF p1,
      THEN conjunct1, THEN mp, OF d_json_deps]
  note b = collectDependencies_start_package[where parsePackageJson = parse_ws
      and discover = discover_cycle and cwd = "''/ws/pkg-a''" and pj = pkg_a_json
      and ap = cycle_pkgs, OF p2, THEN conjunct2, THEN mp, OF dc]
  show ?thesis by (intro conjI p1 d_json_deps a r p2 dc b)
qed


section \<open>core/builder.ts\<close>

text \<open>
  \<open>BuildOptions\<close> (both fields optional) and \<open>BuildResult\<close>.  The status of a
  \<open>BuildResult\<close> is one of \<open>"built" | "skipped" | "unchanged"\<close>.
\<close>

record BuildOptions =
  force :: "bool option"
  parallel :: "jsnum option"

datatype build_status = Built | Skipped | Unchanged

record BuildResult =
  result_name :: string
  result_status :: build_status

text \<open>
  What \<open>buildPackage\<close> reads from outside: \<open>stale p\<close> is the value of
  \<open>await needsBuild(p)\<close>, and \<open>command_ok cmd cwd\<close> tells whether the promise of
  \<open>runCommand(cmd, cwd)\<close> is fulfilled (the command exits with code 0) or rejected.
\<close>

record world =
  stale :: "string \<Rightarrow> bool"
  command_ok :: "string \<Rightarrow> string \<Rightarrow> bool"

text \<open>\<open>pkg.packageJson.scripts?.build\<close> is truthy: present and not the empty string.\<close>

definition buildScript :: "PackageInfo \<Rightarrow> bool" where
  "buildScript pkg =
     (case map_of (scripts (packageJson pkg)) ''build'' of
        None \<Rightarrow> False
      | Some s \<Rightarrow> s \<noteq> [])"

text \<open>
  \<open>buildPackage\<close>.  A failing command is caught and rethrown as
  \<open>new Error(`Build failed for ${pkg.name}`)\<close>; the messages written to the console are
  not part of the model.
\<close>

definition buildPackage :: "world \<Rightarrow> PackageInfo \<Rightarrow> BuildOptions \<Rightarrow> error + BuildResult" where
  "buildPackage w pkg options =
     (if \<not> buildScript pkg then Inr \<lparr>result_name = name pkg, result_status = Skipped\<rparr>
      else if force options \<noteq> Some True \<and> \<not> stale w (path pkg)
        then Inr \<lparr>result_name = name pkg, result_status = Unchanged\<rparr>
      else if command_ok w ''bun run build'' (path pkg)
        then Inr \<lparr>result_name = name pkg, result_status = Built\<rparr>
      else Inl (BuildFailed (name pkg)))"

subsection \<open>runWithConcurrency\<close>

text \<open>
  \<open>runWithConcurrency\<close> is an async function: its body runs until it has to wait for a
  promise, and the invocations \<open>fn(item)\<close> it has started finish at moments the body does
  not choose.  The model is a transition system.  A state holds the items the \<open>for\<close> loop
  has still to take (\<open>todo\<close>), the items \<open>fn\<close> was called on (\<open>started\<close>; the promise
  \<open>p\<close> of the \<open>k\<close>-th call is named \<open>k\<close>), the array \<open>executing\<close>, the promises
  that are settled, each with its outcome (\<open>settled\<close>), the array \<open>results\<close>, and the
  place where the body stands:
    \<^item> \<open>Running\<close>: at the head of the \<open>for\<close> loop;
    \<^item> \<open>Racing\<close>: waiting in \<open>await Promise.race(executing)\<close>, no promise of
      \<open>executing\<close> being settled;
    \<^item> \<open>Joining\<close>: waiting in \<open>await Promise.all(executing)\<close>, no promise of
      \<open>executing\<close> being rejected and one at least being pending;
    \<^item> \<open>Returned\<close>: \<open>return results\<close> was reached;
    \<^item> \<open>Thrown e\<close>: one of the two \<open>await\<close> threw \<open>e\<close>.
\<close>

datatype ctl = Running | Racing | Joining | Returned | Thrown error

record ('a, 'r) run_state =
  todo :: "'a list"
  started :: "'a list"
  executing :: "nat list"
  settled :: "nat \<Rightarrow> (error + unit) option"
  results :: "'r list"
  ctl :: ctl

definition init :: "'a list \<Rightarrow> ('a, 'r) run_state" where
  "init items =
     \<lparr>todo = items, started = [], executing = [], settled = (\<lambda>k. None), results = [],
      ctl = Running\<rparr>"

text \<open>
  \<open>executing.length >= limit\<close>, for a limit that is an integer or \<open>NaN\<close> (the values
  that \<open>parseInt\<close> and \<open>os.cpus().length\<close> give); a comparison with \<open>NaN\<close> is false.
\<close>

definition at_limit :: "nat \<Rightarrow> jsnum \<Rightarrow> bool" where
  "at_limit n limit = (case limit of Num k \<Rightarrow> k \<le> int n | NaN \<Rightarrow> False)"

text \<open>
  The callback of \<open>executing.filter\<close>:
  \<open>(e) => { let resolved = false; e.then(() => { resolved = true; }); return !resolved; }\<close>.
  A callback given to \<open>then\<close> is never called before the function that registered it has
  returned, also when the promise is already settled; so \<open>resolved\<close> is still \<open>false\<close>
  at the \<open>return\<close>, for every promise.  The promise that \<open>e.then\<close> returns is dropped.
\<close>

definition not_resolved :: "('a, 'r) run_state \<Rightarrow> nat \<Rightarrow> bool" where
  "not_resolved s e = (let resolved = False in \<not> resolved)"

text \<open>
  The body resumes after \<open>await Promise.race(executing)\<close> settled as promise \<open>k\<close> did:
  it throws when \<open>k\<close> is rejected, and otherwise replaces the content of \<open>executing\<close>
  by the filtered array and goes to the next iteration.
\<close>

definition after_race :: "nat \<Rightarrow> ('a, 'r) run_state \<Rightarrow> ('a, 'r) run_state" where
  "after_race k s =
     (case settled s k of
        Some (Inl e) \<Rightarrow> s\<lparr>ctl := Thrown e\<rparr>
      | _ \<Rightarrow> s\<lparr>executing := filter (not_resolved s) (executing s), ctl := Running\<rparr>)"

text \<open>
  \<open>await Promise.race(executing)\<close>: when promises of the array are settled already, the
  race settles as the first of them in the array; otherwise the body waits.
\<close>

definition race :: "('a, 'r) run_state \<Rightarrow> ('a, 'r) run_state" where
  "race s =
     (case find (\<lambda>k. settled s k \<noteq> None) (executing s) of
        Some k \<Rightarrow> after_race k s
      | None \<Rightarrow> s\<lparr>ctl := Racing\<rparr>)"

text \<open>
  \<open>await Promise.all(executing); return results\<close>: rejected with the reason of a rejected
  promise of the array, fulfilled when all are fulfilled, and waiting otherwise.
\<close>

definition rejection :: "('a, 'r) run_state \<Rightarrow> nat \<Rightarrow> error option" where
  "rejection s k = (case settled s k of Some (Inl e) \<Rightarrow> Some e | _ \<Rightarrow> None)"

definition join :: "('a, 'r) run_state \<Rightarrow> ('a, 'r) run_state" where
  "join s =
     (case find (\<lambda>k. rejection s k \<noteq> None) (executing s) of
        Some k \<Rightarrow> s\<lparr>ctl := Thrown (the (rejection s k))\<rparr>
      | None \<Rightarrow>
          if list_all (\<lambda>k. settled s k \<noteq> None) (executing s) then s\<lparr>ctl := Returned\<rparr>
          else s\<lparr>ctl := Joining\<rparr>)"

text \<open>
  One turn of the loop, from its head: either the loop is over and the body goes to
  \<open>Promise.all\<close>, or it calls \<open>fn(item)\<close>, pushes the promise and, with
  \<open>executing.length >= limit\<close>, goes to \<open>Promise.race\<close>.
\<close>

definition advance :: "jsnum \<Rightarrow> ('a, 'r) run_state \<Rightarrow> ('a, 'r) run_state" where
  "advance limit s =
     (case todo s of
        [] \<Rightarrow> join s
      | item # rest \<Rightarrow>
          (let s' = s\<lparr>todo := rest, started := started s @ [item],
                      executing := executing s @ [length (started s)]\<rparr>
           in if at_limit (length (executing s')) limit then race s' else s'))"

text \<open>
  The invocation \<open>fn(started[k])\<close> finishes.  Fulfilled with \<open>result\<close>, its
  \<open>then\<close> callback pushes \<open>result\<close> on \<open>results\<close> and \<open>p\<close> is fulfilled; rejected,
  \<open>p\<close> is rejected with the same reason.  A body that waits in \<open>Promise.race\<close> or in
  \<open>Promise.all\<close> is resumed accordingly.
\<close>

definition finish :: "('a \<Rightarrow> error + 'r) \<Rightarrow> nat \<Rightarrow> ('a, 'r) run_state \<Rightarrow> ('a, 'r) run_state" where
  "finish fn k s =
     (let s' = (case fn (started s ! k) of
                  Inr result \<Rightarrow>
                    s\<lparr>results := results s @ [result], settled := (settled s)(k \<mapsto> Inr ())\<rparr>
                | Inl e \<Rightarrow> s\<lparr>settled := (settled s)(k \<mapsto> Inl e)\<rparr>)
      in case ctl s of
           Racing \<Rightarrow> if k \<in> set (executing s) then after_race k s' else s'
         | Joining \<Rightarrow> join s'
         | _ \<Rightarrow> s')"

text \<open>
  The two kinds of events: the body takes a turn of the loop (it can when it stands at the
  head of the loop), and an invocation that was started and has not finished, finishes.
  JavaScript runs the body up to its next \<open>await\<close> before it delivers the end of an
  invocation, so the runs of the program are the runs in which every \<open>Finish\<close> comes
  when the body waits or has ended; the system has these runs, and also the runs in which
  an invocation finishes while the body stands at the head of the loop.
\<close>

datatype event = Advance | Finish nat

fun step ::
  "jsnum \<Rightarrow> ('a \<Rightarrow> error + 'r) \<Rightarrow> event \<Rightarrow> ('a, 'r) run_state \<Rightarrow> ('a, 'r) run_state option" where
  "step limit fn Advance s = (if ctl s = Running then Some (advance limit s) else None)"
| "step limit fn (Finish k) s =
     (if k < length (started s) \<and> settled s k = None then Some (finish fn k s) else None)"

fun run ::
  "jsnum \<Rightarrow> ('a \<Rightarrow> error + 'r) \<Rightarrow> event list \<Rightarrow> ('a, 'r) run_state \<Rightarrow>
   ('a, 'r) run_state option" where
  "run limit fn [] s = Some s"
| "run limit fn (ev # evs) s =
     (case step limit fn ev s of None \<Rightarrow> None | Some s' \<Rightarrow> run limit fn evs s')"

text \<open>The invocations in flight: started and not finished.\<close>

definition in_flight :: "('a, 'r) run_state \<Rightarrow> nat list" where
  "in_flight s = filter (\<lambda>k. settled s k = None) [0..<length (started s)]"

text \<open>
  \<open>runWithConcurrency(items, limit, fn)\<close> under a schedule of events: \<open>Some (Inr results)\<close>
  when it has returned, \<open>Some (Inl e)\<close> when it has thrown, \<open>None\<close> when the schedule
  is not one of its runs or it is still waiting at the end of the schedule.
\<close>

definition runWithConcurrency ::
  "'a list \<Rightarrow> jsnum \<Rightarrow> ('a \<Rightarrow> error + 'r) \<Rightarrow> event list \<Rightarrow> (error + 'r list) option" where
  "runWithConcurrency items limit fn sched =
     (case run limit fn sched (init items) of
        None \<Rightarrow> None
      | Some s \<Rightarrow>
          (case ctl s of
             Returned \<Rightarrow> Some (Inr (results s))
           | Thrown e \<Rightarrow> Some (Inl e)
           | _ \<Rightarrow> None))"

subsection \<open>buildAll\<close>

text \<open>
  \<open>buildAll\<close>, with the schedule of each layer given (\<open>scheds i\<close> for the layer of index
  \<open>i\<close>) and \<open>cpus\<close> for \<open>os.cpus().length\<close>.  \<open>packages.get(name)!\<close> is
  \<open>undefined\<close> for a name that is not a key, and the \<open>filter\<close> that follows then
  throws a \<open>TypeError\<close>.  The function returns nothing (\<open>Promise<void>\<close>): the
  array that \<open>runWithConcurrency\<close> returns is dropped.  The progress counters and what is
  written to the console are not part of the model.
\<close>

definition lookup_all :: "(string, PackageInfo) js_map \<Rightarrow> string list \<Rightarrow> PackageInfo list option" where
  "lookup_all packages layer =
     (if list_all (\<lambda>nm. map_of packages nm \<noteq> None) layer
      then Some (map (\<lambda>nm. the (map_of packages nm)) layer) else None)"

fun buildLayers ::
  "world \<Rightarrow> jsnum \<Rightarrow> BuildOptions \<Rightarrow> (string, PackageInfo) js_map \<Rightarrow> (nat \<Rightarrow> event list) \<Rightarrow>
   nat \<Rightarrow> string list list \<Rightarrow> (error + unit) option" where
  "buildLayers w limit options packages scheds i [] = Some (Inr ())"
| "buildLayers w limit options packages scheds i (layer # layers) =
     (case lookup_all packages layer of
        None \<Rightarrow> Some (Inl TypeError)
      | Some pkgs \<Rightarrow>
          (let buildable = filter buildScript pkgs in
           if buildable = [] then buildLayers w limit options packages scheds (Suc i) layers
           else (case runWithConcurrency buildable limit
                        (\<lambda>pkg. buildPackage w pkg options) (scheds i) of
                   None \<Rightarrow> None
                 | Some (Inl e) \<Rightarrow> Some (Inl e)
                 | Some (Inr rs) \<Rightarrow>
                     buildLayers w limit options packages scheds (Suc i) layers)))"

text \<open>\<open>options.parallel ?? os.cpus().length\<close>.\<close>

definition parallel_limit :: "BuildOptions \<Rightarrow> nat \<Rightarrow> jsnum" where
  "parallel_limit options cpus =
     (case parallel options of None \<Rightarrow> Num (int cpus) | Some n \<Rightarrow> n)"

definition buildAll ::
  "world \<Rightarrow> nat \<Rightarrow> string list list \<Rightarrow> (string, PackageInfo) js_map \<Rightarrow> BuildOptions \<Rightarrow>
   (nat \<Rightarrow> event list) \<Rightarrow> (error + unit) option" where
  "buildAll w cpus layers packages options scheds =
     buildLayers w (parallel_limit options cpus) options packages scheds 0 layers"

text \<open>
  A schedule is complete for a call of \<open>runWithConcurrency\<close> when it is a run after
  which nothing more can happen: the body does not stand at the head of the loop and every
  invocation that was started has finished.  The schedules of \<open>buildAll\<close> are complete
  when the schedule of every layer that is run is complete; a layer is run when it has
  packages to build and every layer before it was found in the map and has returned
  normally.
\<close>

definition complete ::
  "jsnum \<Rightarrow> ('a \<Rightarrow> error + 'r) \<Rightarrow> 'a list \<Rightarrow> event list \<Rightarrow> bool" where
  "complete limit fn items sched =
     (case run limit fn sched (init items) of
        None \<Rightarrow> False
      | Some s \<Rightarrow> ctl s \<noteq> Running \<and> in_flight s = [])"

fun layers_complete ::
  "world \<Rightarrow> jsnum \<Rightarrow> BuildOptions \<Rightarrow> (string, PackageInfo) js_map \<Rightarrow> (nat \<Rightarrow> event list) \<Rightarrow>
   nat \<Rightarrow> string list list \<Rightarrow> bool" where
  "layers_complete w limit options packages scheds i [] = True"
| "layers_complete w limit options packages scheds i (layer # layers) =
     (case lookup_all packages layer of
        None \<Rightarrow> True
      | Some pkgs \<Rightarrow>
          (let buildable = filter buildScript pkgs in
           if buildable = [] then layers_complete w limit options packages scheds (Suc i) layers
           else complete limit (\<lambda>pkg. buildPackage w pkg options) buildable (scheds i) \<and>
                (case runWithConcurrency buildable limit
                        (\<lambda>pkg. buildPackage w pkg options) (scheds i) of
                   Some (Inr rs) \<Rightarrow>
                     layers_complete w limit options packages scheds (Suc i) layers
                 | _ \<Rightarrow> True)))"

definition schedules_complete ::
  "world \<Rightarrow> jsnum \<Rightarrow> BuildOptions \<Rightarrow> (string, PackageInfo) js_map \<Rightarrow> (nat \<Rightarrow> event list) \<Rightarrow>
   string list list \<Rightarrow> bool" where
  "schedules_complete w limit options packages scheds layers =
     layers_complete w limit options packages scheds 0 layers"

text \<open>
  Three packages with a build script, a world in which every package is stale and every
  build succeeds, and one in which the build of \<open>b\<close> fails.
\<close>

definition abc :: "PackageInfo list" where
  "abc = [createPackage ''a'' [], createPackage ''b'' [], createPackage ''c'' []]"

definition all_ok :: world where
  "all_ok = \<lparr>stale = (\<lambda>p. True), command_ok = (\<lambda>c p. True)\<rparr>"



definition abc_packages :: "(string, PackageInfo) js_map" where
  "abc_packages = [(''a'', createPackage ''a'' []), (''b'', createPackage ''b'' []),
                   (''c'', createPackage ''c'' [])]"

definition one_at_a_time :: BuildOptions where
  "one_at_a_time = \<lparr>force = None, parallel = Some (Num 1)\<rparr>"


text \<open>
  The invocation that \<open>buildAll\<close> gives to \<open>runWithConcurrency\<close>, in the world where
  every build succeeds and with at most one build at a time asked for.
\<close>

definition build_one_at_a_time :: "PackageInfo \<Rightarrow> error + BuildResult" where
  "build_one_at_a_time pkg = buildPackage all_ok pkg one_at_a_time"

text \<open>
  Schedules.  For a layer of one package: the body starts the invocation, leaves the loop
  and waits in \<open>Promise.all\<close>, then the invocation finishes.  For a layer of three
  packages with the limit 1: the body starts the first invocation and waits in
  \<open>Promise.race\<close>; the first invocation finishes; the body starts the second and the
  third invocation and goes to \<open>Promise.all\<close>; the two invocations finish.
\<close>

definition single :: "nat \<Rightarrow> event list" where
  "single i = [Advance, Advance, Finish 0]"

definition three :: "nat \<Rightarrow> event list" where
  "three i = [Advance, Finish 0, Advance, Advance, Advance, Finish 1, Finish 2]"


section \<open>The runs of runWithConcurrency\<close>



lemma not_resolved_filter [simp]: "filter (not_resolved s) xs = xs"
  by (simp add: not_resolved_def)

lemma after_race_fields [simp]:
  "todo (after_race k s) = todo s" "started (after_race k s) = started s"
  "executing (after_race k s) = executing s" "settled (after_race k s) = settled s"
  "results (after_race k s) = results s"
  by (simp_all add: after_race_def split: option.splits sum.splits)

lemma race_fields [simp]:
  "todo (race s) = todo s" "started (race s) = started s"
  "executing (race s) = executing s" "settled (race s) = settled s"
  "results (race s) = results s"
  by (simp_all add: race_def split: option.splits)

lemma join_fields [simp]:
  "todo (join s) = todo s" "started (join s) = started s"
  "executing (join s) = executing s" "settled (join s) = settled s"
  "results (join s) = results s"
  by (simp_all add: join_def split: option.splits)






















section \<open>The outcome of buildAll\<close>












lemmas builder_eval =
  init_def abc_def abc_packages_def advance_def at_limit_def race_def after_race_def
  not_resolved_def finish_def buildPackage_def buildScript_def createPackage_def
  in_flight_def join_def rejection_def upt_rec runWithConcurrency_def buildAll_def
  parallel_limit_def lookup_all_def single_def three_def complete_def
  schedules_complete_def Let_def

lemma overrun_state:
  "map_option in_flight
     (run (Num 1) build_one_at_a_time [Advance, Finish 0, Advance, Advance] (init abc)) =
   Some [1, 2]"
  by (simp add: builder_eval build_one_at_a_time_def all_ok_def one_at_a_time_def)

lemma overrun_run:
  "runWithConcurrency abc (Num 1) build_one_at_a_time (three 0) =
     Some (Inr [\<lparr>result_name = ''a'', result_status = Built\<rparr>,
                \<lparr>result_name = ''b'', result_status = Built\<rparr>,
                \<lparr>result_name = ''c'', result_status = Built\<rparr>])"
  by (simp add: builder_eval build_one_at_a_time_def all_ok_def one_at_a_time_def)

lemma overrun_buildAll:
  "buildAll all_ok 8 [[''a'', ''b'', ''c'']] abc_packages one_at_a_time three = Some (Inr ())"
  by (simp add: builder_eval all_ok_def one_at_a_time_def)

text \<open>
  C4.  The claim is right and the code departs from it.  With the limit 1 and a layer of
  three packages, the run \<open>three\<close> of \<open>runWithConcurrency\<close> is: the body starts the build
  of \<open>a\<close> and waits in \<open>Promise.race\<close>; the build of \<open>a\<close> finishes; the body starts the
  build of \<open>b\<close>, finds \<open>executing.length >= limit\<close> again because the filter removed
  nothing, and \<open>Promise.race\<close> settles at once because the promise of \<open>a\<close> is still in
  the array; the body starts the build of \<open>c\<close>.  After these four events the
  invocations 1 and 2, the builds of \<open>b\<close> and \<open>c\<close>, are in flight together, one more
  than the limit.  The run goes on to its end and \<open>buildAll\<close> returns normally.
\<close>

theorem runWithConcurrency_exceeds_limit:
  "parallel_limit one_at_a_time 8 = Num 1 \<and>
   map_option in_flight
     (run (Num 1) build_one_at_a_time [Advance, Finish 0, Advance, Advance] (init abc)) =
     Some [1, 2] \<and>
   three 0 = [Advance, Finish 0, Advance, Advance] @ [Advance, Finish 1, Finish 2] \<and>
   runWithConcurrency abc (Num 1) build_one_at_a_time (three 0) =
     Some (Inr [\<lparr>result_name = ''a'', result_status = Built\<rparr>,
                \<lparr>result_name = ''b'', result_status = Built\<rparr>,
                \<lparr>result_name = ''c'', result_status = Built\<rparr>]) \<and>
   buildAll all_ok 8 [[''a'', ''b'', ''c'']] abc_packages one_at_a_time three = Some (Inr ())"
proof (intro conjI)
  show "parallel_limit one_at_a_time 8 = Num 1"
    by (simp add: parallel_limit_def one_at_a_time_def)
  show "three 0 = [Advance, Finish 0, Advance, Advance] @ [Advance, Finish 1, Finish 2]"
    by (simp add: three_def)
qed (rule overrun_state overrun_run overrun_buildAll)+









end
